theory Spec2Isabelle
  imports Main "HOL-Library.Multiset"
begin

section \<open>The METIS partitioner of libMesh: \<^verbatim>\<open>src/partitioning/metis_partitioner.C\<close>\<close>

text \<open>
  This theory embeds \<^verbatim>\<open>MetisPartitioner::partition_range\<close> and the code it is made of:
  the construction of the \<^verbatim>\<open>global_index_map\<close>, the interior-to-boundary lookup, the two
  passes that build the CSR graph, the call of the partitioning engine, the broadcast and
  the loop that writes \<^verbatim>\<open>processor_id\<close>. Element pointers are addresses (natural numbers)
  into a store of elements, \<^verbatim>\<open>nullptr\<close> is \<open>None\<close>. Unsigned counters and indices are
  natural numbers; the casts of line 225 and line 228 to \<^verbatim>\<open>Metis::idx_t\<close> and the cast
  of line 541 to \<^verbatim>\<open>processor_id_type\<close> are written out.
\<close>

subsection \<open>Build configuration, failures, sequencing\<close>

text \<open>
  The preprocessor symbols the function is compiled under, and the widths of
  \<^verbatim>\<open>processor_id_type\<close> and of the signed integer type \<^verbatim>\<open>Metis::idx_t\<close>.
\<close>

record Config =
  HAVE_METIS :: bool
  ENABLE_UNIQUE_ID :: bool
  ENABLE_AMR :: bool
  DEBUG :: bool
  NDEBUG :: bool
  LIBMESH_DIM :: nat
  processor_id_bits :: nat
  idx_t_bits :: nat

text \<open>
  A run that does not return normally ends in one of these; the number is the line of
  \<^verbatim>\<open>metis_partitioner.C\<close> where it happens. \<open>KeyNotFound\<close> is the error raised by
  \<^verbatim>\<open>vectormap::operator[]\<close> and \<^verbatim>\<open>libmesh_map_find\<close> on a missing key,
  \<open>OutOfBounds\<close> an access outside a vector (an assertion of the container in a build
  with assertions, undefined behaviour otherwise).
\<close>

datatype error =
    AssertionFailure nat
  | KeyNotFound nat
  | OutOfBounds nat

definition bindE :: "error + 'a \<Rightarrow> ('a \<Rightarrow> error + 'b) \<Rightarrow> error + 'b" where
  "bindE m f = (case m of Inl e \<Rightarrow> Inl e | Inr x \<Rightarrow> f x)"

text \<open>A range-based \<^verbatim>\<open>for\<close> loop whose body may fail: the first failure ends the run.\<close>

fun foldE :: "('a \<Rightarrow> 's \<Rightarrow> error + 's) \<Rightarrow> 'a list \<Rightarrow> 's \<Rightarrow> error + 's" where
  "foldE f [] s = Inr s"
| "foldE f (x # xs) s = (case f x s of Inl e \<Rightarrow> Inl e | Inr s' \<Rightarrow> foldE f xs s')"

text \<open>
  Modelled from the spec: the macros of the \<^verbatim>\<open>libmesh_assert\<close> family are declared
  in a header that is not part of the sources covered here. The spec: a violated precondition or
  invariant is a fatal assertion, an immediate hard failure. That the macros expand to
  nothing under \<^verbatim>\<open>NDEBUG\<close> is visible in the source, where
  \<^verbatim>\<open>graph_size\<close> is declared under \<^verbatim>\<open>#ifndef NDEBUG\<close> only (lines 249-251) and
  is used inside \<^verbatim>\<open>libmesh_assert_equal_to\<close> (line 484).
\<close>

definition libmesh_assert :: "Config \<Rightarrow> nat \<Rightarrow> bool \<Rightarrow> error + unit" where
  "libmesh_assert cfg line c =
     (if NDEBUG cfg \<or> c then Inr () else Inl (AssertionFailure line))"

subsection \<open>Elements and the mesh\<close>

text \<open>
  Some of the element types and the mapping types; the function asks only whether an
  element is a \<^verbatim>\<open>NODEELEM\<close> with a \<^verbatim>\<open>RATIONAL_BERNSTEIN_MAP\<close>.
\<close>

datatype ElemType = EDGE2 | TRI3 | QUAD4 | TET4 | HEX8 | NODEELEM

datatype ElemMappingType = LAGRANGE_MAP | RATIONAL_BERNSTEIN_MAP

record Elem =
  elem_id :: nat
  processor_id :: nat
  active :: bool
  dim :: nat
  n_nodes :: nat
  elem_type :: ElemType
  mapping_type :: ElemMappingType
  neighbors :: "nat option list"
  interior_parent :: "nat option"

text \<open>
  \<open>elems\<close> is the store: the element behind each pointer. \<open>query_elem_ptr\<close> is the
  mesh's own table from element id to pointer; an element of another mesh (the interior
  parent of an element of a boundary mesh) is in the store and not in this table.
  \<open>active_elements\<close> are the pointers that the range from
  \<^verbatim>\<open>active_elements_begin()\<close> to \<^verbatim>\<open>active_elements_end()\<close> yields.
\<close>

record MeshBase =
  elems :: "nat \<Rightarrow> Elem"
  query_elem_ptr :: "nat \<Rightarrow> nat option"
  active_elements :: "nat list"
  is_serial :: bool
  mesh_processor_id :: nat

text \<open>
  The arguments of one call of the partitioning engine. \<open>nvtxs\<close> and \<open>nparts\<close> are the
  variables \<^verbatim>\<open>n\<close> and \<^verbatim>\<open>nparts\<close> of lines 225 and 228, of type \<^verbatim>\<open>Metis::idx_t\<close>.
\<close>

record MetisCall =
  nvtxs :: int
  ncon :: nat
  xadj :: "nat list"
  adjncy :: "nat list"
  vertex_weights :: "nat list"
  nparts :: int
  part_in :: "nat list"

text \<open>
  The collaborators of \<^verbatim>\<open>partition_range\<close> that are not part of the file: they are
  parameters. \<open>weights\<close> is the member \<^verbatim>\<open>_weights\<close> (\<open>None\<close> when the pointer is
  null), with its entries already converted to \<^verbatim>\<open>Metis::idx_t\<close>. The two engine
  entry points return the contents of \<^verbatim>\<open>part\<close> after the call (\<open>part_in\<close> is its
  contents before). \<open>root_part\<close> is the vector that the process of rank 0 sends in the
  broadcast.
\<close>

record Env =
  find_global_indices :: "MeshBase \<Rightarrow> nat list \<Rightarrow> nat list"
  find_interior_neighbors :: "MeshBase \<Rightarrow> nat \<Rightarrow> nat list"
  active_family_tree :: "MeshBase \<Rightarrow> nat \<Rightarrow> nat list"
  which_neighbor_am_i :: "MeshBase \<Rightarrow> nat \<Rightarrow> nat \<Rightarrow> nat"
  allgather :: "MeshBase \<Rightarrow> MeshBase"
  METIS_PartGraphRecursive :: "MetisCall \<Rightarrow> nat list"
  METIS_PartGraphKway :: "MetisCall \<Rightarrow> nat list"
  root_part :: "nat list"
  sfc_partition_range :: "MeshBase \<Rightarrow> nat list \<Rightarrow> nat \<Rightarrow> error + MeshBase"
  weights :: "nat list option"

text \<open>
  What a process keeps between calls and shows to the outside: the lines written to
  \<^verbatim>\<open>libMesh::out\<close>, the static flag of \<^verbatim>\<open>libmesh_do_once\<close>, and the calls made to
  collaborators, in order.
\<close>

datatype call =
    Allgather
  | FindGlobalIndices
  | PartGraphRecursive
  | PartGraphKway
  | Broadcast
  | SFCPartition

record Process =
  out :: "string list"
  did_this_already :: bool
  calls :: "call list"

definition gather_warning :: string where
  "gather_warning = ''WARNING: Forced to gather a distributed mesh for METIS''"

text \<open>The three lines of the notice of lines 96-99.\<close>

definition no_metis_notice :: "string list" where
  "no_metis_notice =
     [''ERROR: The library has been built without'',
      ''Metis support.  Using a space-filling curve'',
      ''partitioner instead!'']"

text \<open>
  Modelled from the spec: the macro \<^verbatim>\<open>libmesh_do_once\<close> is declared in a header that
  is not part of the sources covered here. The spec: the notice is printed once per process run,
  not per call. The flag \<open>did_this_already\<close> is the static variable of the macro, \<open>msg\<close>
  the lines that the statement inside the macro writes.
\<close>

definition libmesh_do_once :: "string list \<Rightarrow> Process \<Rightarrow> Process" where
  "libmesh_do_once msg p =
     (if did_this_already p then p
      else p\<lparr>out := out p @ msg, did_this_already := True\<rparr>)"

subsection \<open>\<^verbatim>\<open>vectormap\<close>\<close>

text \<open>
  Modelled from the spec: the container \<^verbatim>\<open>vectormap\<close> is declared in a header that is
  not part of the sources covered here. The spec: the global index map is a mapping from element
  identifier to index. A \<^verbatim>\<open>vectormap\<close> is a vector of pairs, sorted by key before
  the first lookup; \<^verbatim>\<open>emplace\<close> appends, and neither it nor the sort removes a
  repeated key: an association list in emplace order, a lookup returning the first pair
  with the key, \<^verbatim>\<open>operator[]\<close> failing on a key that is absent.
\<close>

type_synonym vectormap = "(nat \<times> nat) list"

definition vm_emplace :: "vectormap \<Rightarrow> nat \<Rightarrow> nat \<Rightarrow> vectormap" where
  "vm_emplace m k v = m @ [(k, v)]"

definition vm_count :: "vectormap \<Rightarrow> nat \<Rightarrow> nat" where
  "vm_count m k = (if map_of m k = None then 0 else 1)"

definition vm_index :: "nat \<Rightarrow> vectormap \<Rightarrow> nat \<Rightarrow> error + nat" where
  "vm_index line m k =
     (case map_of m k of None \<Rightarrow> Inl (KeyNotFound line) | Some v \<Rightarrow> Inr v)"

subsection \<open>The global index map (lines 117-188)\<close>

text \<open>
  \<^verbatim>\<open>global_index_inverses\<close>, an \<^verbatim>\<open>unordered_map\<close> from index to the vector of element
  ids that received it: an association list with one pair for each key.
  \<open>inverses_push m h i\<close> is \<^verbatim>\<open>m[h].push_back(i)\<close>.
\<close>

fun inverses_push :: "(nat \<times> nat list) list \<Rightarrow> nat \<Rightarrow> nat \<Rightarrow> (nat \<times> nat list) list" where
  "inverses_push [] h i = [(h, [i])]"
| "inverses_push ((k, vec) # m) h i =
     (if k = h then (k, vec @ [i]) # m else (k, vec) # inverses_push m h i)"

text \<open>The loop of lines 146-152, over the element ids paired with \<^verbatim>\<open>global_index[cnt++]\<close>.\<close>

fun collect_inverses ::
  "(nat \<times> nat) list \<Rightarrow> (nat \<times> nat list) list \<times> bool \<Rightarrow> (nat \<times> nat list) list \<times> bool" where
  "collect_inverses [] acc = acc"
| "collect_inverses ((i, h) # rest) (m, found_duplicate_indices) =
     collect_inverses rest
       (inverses_push m h i,
        (case map_of m h of
           None \<Rightarrow> found_duplicate_indices
         | Some vec \<Rightarrow> if vec \<noteq> [] then True else found_duplicate_indices))"

text \<open>The inner loop of lines 165-166 for one bucket: \<^verbatim>\<open>emplace(elem_id, new_global_index++)\<close>.\<close>

fun emplace_ids :: "nat list \<Rightarrow> vectormap \<times> nat \<Rightarrow> vectormap \<times> nat" where
  "emplace_ids [] acc = acc"
| "emplace_ids (eid # rest) (m, new_global_index) =
     emplace_ids rest (vm_emplace m eid new_global_index, Suc new_global_index)"

text \<open>
  Lines 160-166: \<^verbatim>\<open>sorted_inverses\<close> is a \<^verbatim>\<open>std::map\<close> built from the unordered map,
  so its buckets come in increasing order of the index; the keys are pairwise different.
\<close>

definition renumber :: "(nat \<times> nat list) list \<Rightarrow> vectormap" where
  "renumber global_index_inverses =
     fst (foldl (\<lambda>acc bucket. emplace_ids (snd bucket) acc) ([], 0)
            (sort_key fst global_index_inverses))"

text \<open>Lines 170-172 (and 132-134): \<^verbatim>\<open>emplace(elem->id(), global_index[cnt++])\<close>.\<close>

definition emplace_direct :: "(nat \<times> nat) list \<Rightarrow> vectormap" where
  "emplace_direct pairs = foldl (\<lambda>m p. vm_emplace m (fst p) (snd p)) [] pairs"

text \<open>
  \<open>ids\<close> are the ids of the elements of the range in iteration order, \<open>global_index\<close>
  is the vector filled by \<^verbatim>\<open>find_global_indices\<close>. Reading \<^verbatim>\<open>global_index[cnt]\<close>
  beyond its end is possible only when the assertion of line 127 is compiled out.
\<close>

definition build_global_index_map :: "Config \<Rightarrow> nat list \<Rightarrow> nat list \<Rightarrow> error + vectormap" where
  "build_global_index_map cfg ids global_index =
     bindE (libmesh_assert cfg 127 (length global_index = length ids)) (\<lambda>_.
       if length global_index < length ids
       then Inl (OutOfBounds (if ENABLE_UNIQUE_ID cfg then 134 else 148))
       else
         let pairs = zip ids global_index;
             global_index_map =
               (if ENABLE_UNIQUE_ID cfg then emplace_direct pairs
                else
                  let (global_index_inverses, found_duplicate_indices) =
                        collect_inverses pairs ([], False)
                  in if found_duplicate_indices then renumber global_index_inverses
                     else emplace_direct pairs)
         in
         bindE (libmesh_assert cfg 176 (length global_index_map = length ids)) (\<lambda>_.
         bindE (if DEBUG cfg
                then bindE (libmesh_assert cfg 185
                              (length (remdups (map snd global_index_map)) = length ids)) (\<lambda>_.
                            libmesh_assert cfg 186
                              (length (remdups (map fst global_index_map)) = length ids))
                else Inr ()) (\<lambda>_.
         Inr global_index_map)))"

subsection \<open>The interior-to-boundary lookup (lines 194-211)\<close>

text \<open>
  The contents of a \<^verbatim>\<open>std::set\<close> of element pointers in its iteration order:
  increasing, each pointer once.
\<close>

definition std_set :: "nat list \<Rightarrow> nat list" where
  "std_set xs = remdups (sort xs)"

definition has_interior_parent :: "Config \<Rightarrow> Elem \<Rightarrow> bool" where
  "has_interior_parent cfg e = (dim e < LIBMESH_DIM cfg \<and> interior_parent e \<noteq> None)"

text \<open>
  \<^verbatim>\<open>interior_to_boundary_map\<close> is an unordered multimap from pointer to pointer: the
  list of its pairs, and \<^verbatim>\<open>equal_range\<close> the pairs with a given key (in the order
  of insertion; the container leaves the order among equal keys open).
\<close>

definition i2b_elem ::
  "Config \<Rightarrow> Env \<Rightarrow> MeshBase \<Rightarrow> nat \<Rightarrow> (nat \<times> nat) list \<Rightarrow> (nat \<times> nat) list" where
  "i2b_elem cfg env mesh elem m =
     (if LIBMESH_DIM cfg \<le> dim (elems mesh elem) \<or> interior_parent (elems mesh elem) = None
      then m
      else m @ map (\<lambda>neighbor. (neighbor, elem))
                 (std_set (find_interior_neighbors env mesh elem)))"

definition build_interior_to_boundary_map ::
  "Config \<Rightarrow> Env \<Rightarrow> MeshBase \<Rightarrow> nat list \<Rightarrow> (nat \<times> nat) list" where
  "build_interior_to_boundary_map cfg env mesh elem_range =
     foldl (\<lambda>m elem. i2b_elem cfg env mesh elem m) [] elem_range"

definition equal_range :: "(nat \<times> nat) list \<Rightarrow> nat \<Rightarrow> (nat \<times> nat) list" where
  "equal_range m key = filter (\<lambda>pr. fst pr = key) m"

subsection \<open>\<^verbatim>\<open>METIS_CSR_Graph\<close>\<close>

record CSR =
  offsets :: "nat list"
  vals :: "nat list"

text \<open>
  Modelled from the spec: the class \<^verbatim>\<open>METIS_CSR_Graph\<close> (\<^verbatim>\<open>prep_n_nonzeros\<close>,
  \<^verbatim>\<open>prepare_for_use\<close>, \<^verbatim>\<open>operator()\<close>) is declared in a header that is not part of
  the sources covered here. The spec: the count of a vertex fixes its row width in the offset array;
  \<open>offsets[0..n]\<close> is non-decreasing and \<open>values[offsets[i]..offsets[i+1])\<close> holds the
  neighbours of vertex \<open>i\<close>; when the total edge count is zero a single dummy value slot
  is allocated.
\<close>

definition prep_n_nonzeros :: "CSR \<Rightarrow> nat \<Rightarrow> nat \<Rightarrow> CSR" where
  "prep_n_nonzeros g row n_nonzeros = g\<lparr>offsets := (offsets g)[row + 1 := n_nonzeros]\<rparr>"

text \<open>The running sums of a list, from \<open>acc\<close>.\<close>

fun partial_sum :: "nat \<Rightarrow> nat list \<Rightarrow> nat list" where
  "partial_sum acc [] = []"
| "partial_sum acc (x # xs) = (acc + x) # partial_sum (acc + x) xs"

text \<open>
  Modelled from the spec: \<^verbatim>\<open>prepare_for_use\<close> of the same class. The spec: the offsets
  are the running sums of the row widths, the value array has one slot for each edge,
  and a single dummy slot when the total edge count is zero.
\<close>

definition prepare_for_use :: "CSR \<Rightarrow> CSR" where
  "prepare_for_use g =
     (let offs = partial_sum 0 (offsets g);
          total = (if offs = [] then 0 else last offs)
      in \<lparr>offsets = offs, vals = (if total = 0 then [0] else replicate total 0)\<rparr>)"

text \<open>
  Modelled from the spec: \<^verbatim>\<open>operator()\<close> of the same class,
  \<^verbatim>\<open>csr_graph(row, nonzero) = v\<close>. The spec: the neighbours of vertex \<open>i\<close> are the
  values from \<open>offsets[i]\<close> on. A slot outside the value array is a failure.
\<close>

definition csr_set :: "nat \<Rightarrow> CSR \<Rightarrow> nat \<Rightarrow> nat \<Rightarrow> nat \<Rightarrow> error + CSR" where
  "csr_set line g row nonzero v =
     (if row < length (offsets g) \<and> offsets g ! row + nonzero < length (vals g)
      then Inr (g\<lparr>vals := (vals g)[offsets g ! row + nonzero := v]\<rparr>)
      else Inl (OutOfBounds line))"

subsection \<open>Pass 1: row sizes and vertex weights (lines 255-376)\<close>

text \<open>
  Modelled from the spec: \<^verbatim>\<open>Elem::neighbor_ptr\<close> is declared in a header that is not
  part of the sources covered here. The spec: an element exposes its neighbour by side, possibly
  null. \<open>e->neighbor_ptr(i)\<close> with \<open>i\<close> not a side of \<open>e\<close> is a failure.
\<close>

definition neighbor_ptr :: "nat \<Rightarrow> Elem \<Rightarrow> nat \<Rightarrow> error + nat option" where
  "neighbor_ptr line e i =
     (if i < length (neighbors e) then Inr (neighbors e ! i) else Inl (OutOfBounds line))"

text \<open>The body of the loop over \<^verbatim>\<open>neighbors_offspring\<close>, lines 326-340.\<close>

definition pass1_child ::
  "Config \<Rightarrow> MeshBase \<Rightarrow> vectormap \<Rightarrow> nat \<Rightarrow> nat \<Rightarrow> nat \<Rightarrow> nat \<Rightarrow> error + nat" where
  "pass1_child cfg mesh global_index_map elem ns child num_neighbors =
     (if vm_count global_index_map (elem_id (elems mesh child)) = 0 then Inr num_neighbors
      else
        bindE (neighbor_ptr 335 (elems mesh child) ns) (\<lambda>np.
          if np = Some elem
          then bindE (libmesh_assert cfg 337 (active (elems mesh child))) (\<lambda>_.
                 Inr (num_neighbors + 1))
          else Inr num_neighbors))"

text \<open>The body of the loop over \<^verbatim>\<open>elem->neighbor_ptr_range()\<close>, lines 283-346.\<close>

definition pass1_neighbor ::
  "Config \<Rightarrow> Env \<Rightarrow> MeshBase \<Rightarrow> vectormap \<Rightarrow> nat \<Rightarrow> nat option \<Rightarrow> nat \<Rightarrow> error + nat" where
  "pass1_neighbor cfg env mesh global_index_map elem neighbor num_neighbors =
     (case neighbor of
        None \<Rightarrow> Inr num_neighbors
      | Some nb \<Rightarrow>
          if active (elems mesh nb) \<and> vm_count global_index_map (elem_id (elems mesh nb)) = 0
          then Inr num_neighbors
          else if active (elems mesh nb) then Inr (num_neighbors + 1)
          else if ENABLE_AMR cfg then
            (let ns = which_neighbor_am_i env mesh nb elem in
             bindE (libmesh_assert cfg 309 (ns < length (neighbors (elems mesh nb)))) (\<lambda>_.
               foldE (pass1_child cfg mesh global_index_map elem ns)
                 (active_family_tree env mesh nb) num_neighbors))
          else Inr num_neighbors)"

text \<open>The row width of one element: lines 279-363.\<close>

definition pass1_num_neighbors ::
  "Config \<Rightarrow> Env \<Rightarrow> MeshBase \<Rightarrow> vectormap \<Rightarrow> (nat \<times> nat) list \<Rightarrow> nat \<Rightarrow> error + nat" where
  "pass1_num_neighbors cfg env mesh global_index_map interior_to_boundary_map elem =
     bindE (foldE (pass1_neighbor cfg env mesh global_index_map elem)
              (neighbors (elems mesh elem)) 0) (\<lambda>num_neighbors.
       Inr (num_neighbors
            + (if has_interior_parent cfg (elems mesh elem)
               then length (std_set (find_interior_neighbors env mesh elem)) else 0)
            + length (equal_range interior_to_boundary_map elem)))"

text \<open>Lines 263-277. The weight vector is indexed by the element id.\<close>

definition elem_weight :: "Env \<Rightarrow> Elem \<Rightarrow> error + nat" where
  "elem_weight env e =
     (case weights env of
        None \<Rightarrow>
          Inr (if elem_type e = NODEELEM \<and> mapping_type e = RATIONAL_BERNSTEIN_MAP
               then 50 else n_nodes e)
      | Some ws \<Rightarrow> if elem_id e < length ws then Inr (ws ! elem_id e) else Inl (OutOfBounds 277))"

text \<open>
  The body of the first pass for one element. The state is \<^verbatim>\<open>vwgt\<close>, the graph and
  \<^verbatim>\<open>graph_size\<close> (a variable of the builds with assertions, kept in every build here and
  read by the assertion of line 484 only).
\<close>

definition pass1_elem ::
  "Config \<Rightarrow> Env \<Rightarrow> MeshBase \<Rightarrow> vectormap \<Rightarrow> (nat \<times> nat) list \<Rightarrow> nat
     \<Rightarrow> nat list \<times> CSR \<times> nat \<Rightarrow> error + (nat list \<times> CSR \<times> nat)" where
  "pass1_elem cfg env mesh global_index_map interior_to_boundary_map elem st =
     (case st of (vwgt, csr_graph, graph_size) \<Rightarrow>
       bindE (vm_index 258 global_index_map (elem_id (elems mesh elem))) (\<lambda>elem_global_index.
       bindE (libmesh_assert cfg 260 (elem_global_index < length vwgt)) (\<lambda>_.
       if \<not> elem_global_index < length vwgt then Inl (OutOfBounds 272)
       else
       bindE (elem_weight env (elems mesh elem)) (\<lambda>w.
       bindE (pass1_num_neighbors cfg env mesh global_index_map interior_to_boundary_map elem)
         (\<lambda>num_neighbors.
       if \<not> elem_global_index + 1 < length (offsets csr_graph) then Inl (OutOfBounds 370)
       else
       bindE (libmesh_assert cfg 370 (offsets csr_graph ! (elem_global_index + 1) = 0)) (\<lambda>_.
       Inr (vwgt[elem_global_index := w],
            prep_n_nonzeros csr_graph elem_global_index num_neighbors,
            graph_size + num_neighbors)))))))"

subsection \<open>Pass 2: filling the adjacency array (lines 381-480)\<close>

text \<open>The body of the loop over \<^verbatim>\<open>neighbors_offspring\<close>, lines 425-440.\<close>

definition pass2_child ::
  "Config \<Rightarrow> MeshBase \<Rightarrow> vectormap \<Rightarrow> nat \<Rightarrow> nat \<Rightarrow> nat \<Rightarrow> nat \<Rightarrow> CSR \<times> nat
     \<Rightarrow> error + (CSR \<times> nat)" where
  "pass2_child cfg mesh global_index_map elem elem_global_index ns child st =
     (case st of (csr_graph, connection) \<Rightarrow>
       if vm_count global_index_map (elem_id (elems mesh child)) = 0 then Inr st
       else
         bindE (neighbor_ptr 434 (elems mesh child) ns) (\<lambda>np.
           if np = Some elem
           then bindE (libmesh_assert cfg 436 (active (elems mesh child))) (\<lambda>_.
                bindE (vm_index 438 global_index_map (elem_id (elems mesh child))) (\<lambda>v.
                bindE (csr_set 438 csr_graph elem_global_index connection v) (\<lambda>g.
                  Inr (g, connection + 1))))
           else Inr st))"

text \<open>The body of the loop over \<^verbatim>\<open>elem->neighbor_ptr_range()\<close>, lines 390-446.\<close>

definition pass2_neighbor ::
  "Config \<Rightarrow> Env \<Rightarrow> MeshBase \<Rightarrow> vectormap \<Rightarrow> nat \<Rightarrow> nat \<Rightarrow> nat option \<Rightarrow> CSR \<times> nat
     \<Rightarrow> error + (CSR \<times> nat)" where
  "pass2_neighbor cfg env mesh global_index_map elem elem_global_index neighbor st =
     (case st of (csr_graph, connection) \<Rightarrow>
       (case neighbor of
          None \<Rightarrow> Inr st
        | Some nb \<Rightarrow>
            if active (elems mesh nb) \<and> vm_count global_index_map (elem_id (elems mesh nb)) = 0
            then Inr st
            else if active (elems mesh nb) then
              bindE (vm_index 403 global_index_map (elem_id (elems mesh nb))) (\<lambda>v.
              bindE (csr_set 403 csr_graph elem_global_index connection v) (\<lambda>g.
                Inr (g, connection + 1)))
            else if ENABLE_AMR cfg then
              (let ns = which_neighbor_am_i env mesh nb elem in
               bindE (libmesh_assert cfg 416 (ns < length (neighbors (elems mesh nb)))) (\<lambda>_.
                 foldE (pass2_child cfg mesh global_index_map elem elem_global_index ns)
                   (active_family_tree env mesh nb) st))
            else Inr st))"

text \<open>The body of the loop over the interior neighbours, lines 455-470.\<close>

definition pass2_interior ::
  "MeshBase \<Rightarrow> vectormap \<Rightarrow> nat \<Rightarrow> nat \<Rightarrow> CSR \<times> nat \<Rightarrow> error + (CSR \<times> nat)" where
  "pass2_interior mesh global_index_map elem_global_index neighbor st =
     (case st of (csr_graph, connection) \<Rightarrow>
       if query_elem_ptr mesh (elem_id (elems mesh neighbor)) = Some neighbor
       then bindE (vm_index 469 global_index_map (elem_id (elems mesh neighbor))) (\<lambda>v.
            bindE (csr_set 468 csr_graph elem_global_index connection v) (\<lambda>g.
              Inr (g, connection + 1)))
       else Inr st)"

text \<open>The body of the loop over the boundary neighbours, lines 474-479.\<close>

definition pass2_boundary ::
  "MeshBase \<Rightarrow> vectormap \<Rightarrow> nat \<Rightarrow> nat \<times> nat \<Rightarrow> CSR \<times> nat \<Rightarrow> error + (CSR \<times> nat)" where
  "pass2_boundary mesh global_index_map elem_global_index pr st =
     (case st of (csr_graph, connection) \<Rightarrow>
       bindE (vm_index 478 global_index_map (elem_id (elems mesh (snd pr)))) (\<lambda>v.
       bindE (csr_set 477 csr_graph elem_global_index connection v) (\<lambda>g.
         Inr (g, connection + 1))))"

text \<open>
  The body of the second pass for one element. It returns the graph and the final value
  of \<^verbatim>\<open>connection\<close>, the number of entries written into the row of the element.
\<close>

definition pass2_elem ::
  "Config \<Rightarrow> Env \<Rightarrow> MeshBase \<Rightarrow> vectormap \<Rightarrow> (nat \<times> nat) list \<Rightarrow> nat \<Rightarrow> CSR
     \<Rightarrow> error + (CSR \<times> nat)" where
  "pass2_elem cfg env mesh global_index_map interior_to_boundary_map elem csr_graph =
     bindE (vm_index 384 global_index_map (elem_id (elems mesh elem))) (\<lambda>elem_global_index.
     bindE (foldE (pass2_neighbor cfg env mesh global_index_map elem elem_global_index)
              (neighbors (elems mesh elem)) (csr_graph, 0)) (\<lambda>st1.
     bindE (if has_interior_parent cfg (elems mesh elem)
            then foldE (pass2_interior mesh global_index_map elem_global_index)
                   (std_set (find_interior_neighbors env mesh elem)) st1
            else Inr st1) (\<lambda>st2.
     foldE (pass2_boundary mesh global_index_map elem_global_index)
       (equal_range interior_to_boundary_map elem) st2)))"

subsection \<open>Building the graph (lines 235-480)\<close>

definition build_graph ::
  "Config \<Rightarrow> Env \<Rightarrow> MeshBase \<Rightarrow> vectormap \<Rightarrow> (nat \<times> nat) list \<Rightarrow> nat list
     \<Rightarrow> error + (nat list \<times> CSR \<times> nat)" where
  "build_graph cfg env mesh global_index_map interior_to_boundary_map elem_range =
     (let n_range_elem = length elem_range in
      bindE (foldE (pass1_elem cfg env mesh global_index_map interior_to_boundary_map)
               elem_range
               (replicate n_range_elem 0,
                \<lparr>offsets = replicate (n_range_elem + 1) 0, vals = []\<rparr>, 0)) (\<lambda>st.
        case st of (vwgt, csr_graph, graph_size) \<Rightarrow>
          bindE (foldE (\<lambda>elem g.
                          bindE (pass2_elem cfg env mesh global_index_map
                                   interior_to_boundary_map elem g) (\<lambda>r. Inr (fst r)))
                   elem_range (prepare_for_use csr_graph)) (\<lambda>g.
            Inr (vwgt, g, graph_size))))"

subsection \<open>The engine, the broadcast and the assignment (lines 213-544)\<close>

text \<open>
  \<^verbatim>\<open>static_cast<Metis::idx_t>\<close> of an unsigned value (lines 225 and 228): the value
  modulo \<open>2 ^ idx_t_bits\<close>, read as a signed integer of that width.
\<close>

definition cast_idx_t :: "Config \<Rightarrow> nat \<Rightarrow> int" where
  "cast_idx_t cfg x =
     (let r = int x mod 2 ^ idx_t_bits cfg
      in if r < 2 ^ (idx_t_bits cfg - 1) then r else r - 2 ^ idx_t_bits cfg)"

text \<open>
  Lines 218-524, executed on the process of rank 0: the graph, the assertion of line 484
  and the choice of the entry point. The result is the call made and the new contents of
  \<^verbatim>\<open>part\<close>.
\<close>

definition metis_block ::
  "Config \<Rightarrow> Env \<Rightarrow> MeshBase \<Rightarrow> vectormap \<Rightarrow> (nat \<times> nat) list \<Rightarrow> nat list \<Rightarrow> nat
     \<Rightarrow> nat list \<Rightarrow> error + (call \<times> nat list)" where
  "metis_block cfg env mesh global_index_map interior_to_boundary_map elem_range n_pieces part0 =
     bindE (build_graph cfg env mesh global_index_map interior_to_boundary_map elem_range)
       (\<lambda>st. case st of (vwgt, csr_graph, graph_size) \<Rightarrow>
          bindE (libmesh_assert cfg 484 (length (vals csr_graph) = max graph_size 1)) (\<lambda>_.
            let args = \<lparr>nvtxs = cast_idx_t cfg (length elem_range), ncon = 1,
                        xadj = offsets csr_graph, adjncy = vals csr_graph,
                        vertex_weights = vwgt, nparts = cast_idx_t cfg n_pieces,
                        part_in = part0\<rparr>
            in if n_pieces \<le> 8
               then Inr (PartGraphRecursive, METIS_PartGraphRecursive env args)
               else Inr (PartGraphKway, METIS_PartGraphKway env args)))"

text \<open>
  Modelled from the spec: \<^verbatim>\<open>mesh.comm().broadcast(part)\<close> belongs to the communication
  library. The spec: the partition array of the coordinating process (rank 0) is
  broadcast to every process verbatim.
\<close>

definition broadcast :: "Env \<Rightarrow> MeshBase \<Rightarrow> nat list \<Rightarrow> nat list" where
  "broadcast env mesh part0 = (if mesh_processor_id mesh = 0 then part0 else root_part env)"

text \<open>\<^verbatim>\<open>static_cast<processor_id_type>\<close> of a non-negative value.\<close>

definition cast_processor_id :: "Config \<Rightarrow> nat \<Rightarrow> nat" where
  "cast_processor_id cfg x = x mod 2 ^ processor_id_bits cfg"

text \<open>The body of the loop of lines 532-544.\<close>

definition assign_elem :: "Config \<Rightarrow> vectormap \<Rightarrow> nat list \<Rightarrow> nat \<Rightarrow> MeshBase \<Rightarrow> error + MeshBase" where
  "assign_elem cfg global_index_map part0 elem mesh =
     bindE (libmesh_assert cfg 534
              (vm_count global_index_map (elem_id (elems mesh elem)) \<noteq> 0)) (\<lambda>_.
     bindE (vm_index 537 global_index_map (elem_id (elems mesh elem))) (\<lambda>elem_global_index.
     bindE (libmesh_assert cfg 539 (elem_global_index < length part0)) (\<lambda>_.
     if \<not> elem_global_index < length part0 then Inl (OutOfBounds 541)
     else
       Inr (mesh\<lparr>elems := (elems mesh)
              (elem := (elems mesh elem)
                 \<lparr>processor_id := cast_processor_id cfg (part0 ! elem_global_index)\<rparr>)\<rparr>))))"

text \<open>
  Lines 213-527: the partition vector after the broadcast, with the calls made on the way;
  a failure comes with the calls made before it.
\<close>

definition partition_vector ::
  "Config \<Rightarrow> Env \<Rightarrow> MeshBase \<Rightarrow> vectormap \<Rightarrow> nat list \<Rightarrow> nat
     \<Rightarrow> call list \<times> (error + nat list)" where
  "partition_vector cfg env mesh global_index_map elem_range n_pieces =
     (let interior_to_boundary_map = build_interior_to_boundary_map cfg env mesh elem_range;
          part0 = replicate (length elem_range) 0
      in if mesh_processor_id mesh = 0
         then (case metis_block cfg env mesh global_index_map interior_to_boundary_map
                      elem_range n_pieces part0 of
                 Inl e \<Rightarrow> ([], Inl e)
               | Inr (c, part1) \<Rightarrow> ([c, Broadcast], Inr (broadcast env mesh part1)))
         else ([Broadcast], Inr (broadcast env mesh part0)))"

text \<open>Lines 107-544, the branch compiled when the engine is present.\<close>

definition metis_partition_range ::
  "Config \<Rightarrow> Env \<Rightarrow> Process \<Rightarrow> MeshBase \<Rightarrow> nat list \<Rightarrow> nat \<Rightarrow> Process \<times> (error + MeshBase)" where
  "metis_partition_range cfg env p mesh elem_range n_pieces =
     (let global_index = find_global_indices env mesh elem_range;
          p1 = p\<lparr>calls := calls p @ [FindGlobalIndices]\<rparr>
      in case build_global_index_map cfg (map (\<lambda>elem. elem_id (elems mesh elem)) elem_range)
                global_index of
           Inl e \<Rightarrow> (p1, Inl e)
         | Inr global_index_map \<Rightarrow>
             (case partition_vector cfg env mesh global_index_map elem_range n_pieces of
                (cs, Inl e) \<Rightarrow> (p1\<lparr>calls := calls p1 @ cs\<rparr>, Inl e)
              | (cs, Inr part2) \<Rightarrow>
                  (p1\<lparr>calls := calls p1 @ cs\<rparr>,
                   foldE (assign_elem cfg global_index_map part2) elem_range mesh)))"

subsection \<open>\<^verbatim>\<open>MetisPartitioner::partition_range\<close> (lines 69-546)\<close>

text \<open>
  Modelled from the spec: \<^verbatim>\<open>Partitioner::single_partition_range\<close> is defined in a file
  that is not part of the sources covered here. The spec: assign all elements in range to partition 0, no graph
  built.
\<close>

definition single_partition_range :: "MeshBase \<Rightarrow> nat list \<Rightarrow> MeshBase" where
  "single_partition_range mesh elem_range =
     foldl (\<lambda>m elem. m\<lparr>elems := (elems m)(elem := (elems m elem)\<lparr>processor_id := 0\<rparr>)\<rparr>)
       mesh elem_range"

text \<open>Lines 86-91.\<close>

definition gather_if_distributed :: "Env \<Rightarrow> Process \<Rightarrow> MeshBase \<Rightarrow> Process \<times> MeshBase" where
  "gather_if_distributed env p mesh =
     (if \<not> is_serial mesh
      then (p\<lparr>out := out p @ [gather_warning], calls := calls p @ [Allgather]\<rparr>,
            allgather env mesh)
      else (p, mesh))"

text \<open>
  The range \<open>[beg, end)\<close> is the list of the pointers it yields; \<open>beg == end\<close> is the
  empty list. The result is the state of the process and either the failure that ended
  the run or the mesh at the return.
\<close>

definition partition_range ::
  "Config \<Rightarrow> Env \<Rightarrow> Process \<Rightarrow> MeshBase \<Rightarrow> nat list \<Rightarrow> nat \<Rightarrow> Process \<times> (error + MeshBase)" where
  "partition_range cfg env p mesh elem_range n_pieces =
     (if elem_range = [] then (p, Inr mesh)
      else if n_pieces = 1 then (p, Inr (single_partition_range mesh elem_range))
      else
        case libmesh_assert cfg 84 (0 < n_pieces) of
          Inl e \<Rightarrow> (p, Inl e)
        | Inr _ \<Rightarrow>
            (case gather_if_distributed env p mesh of (p1, mesh1) \<Rightarrow>
               if \<not> HAVE_METIS cfg
               then (let p2 = libmesh_do_once no_metis_notice p1
                     in (p2\<lparr>calls := calls p2 @ [SFCPartition]\<rparr>,
                         sfc_partition_range env mesh1 elem_range n_pieces))
               else metis_partition_range cfg env p1 mesh1 elem_range n_pieces))"

text \<open>\<^verbatim>\<open>_do_partition\<close> (lines 550-557) passes the active elements of the mesh.\<close>

definition do_partition ::
  "Config \<Rightarrow> Env \<Rightarrow> Process \<Rightarrow> MeshBase \<Rightarrow> nat \<Rightarrow> Process \<times> (error + MeshBase)" where
  "do_partition cfg env p mesh n_pieces =
     partition_range cfg env p mesh (active_elements mesh) n_pieces"

text \<open>The calls to collaborators made between two states of the process.\<close>

definition new_calls :: "Process \<Rightarrow> Process \<Rightarrow> call list" where
  "new_calls p p' = drop (length (calls p)) (calls p')"

subsection \<open>A mesh that the graph builder can work on\<close>

text \<open>
  What the two passes demand of an active descendant \<open>child\<close> of a refined neighbour of
  \<open>elem\<close>, when it is in the range: it has the side \<open>ns\<close>, and it is active if that side
  points back at \<open>elem\<close> (the assertions of lines 337 and 436).
\<close>

definition child_ok :: "Config \<Rightarrow> MeshBase \<Rightarrow> nat list \<Rightarrow> nat \<Rightarrow> nat \<Rightarrow> nat \<Rightarrow> bool" where
  "child_ok cfg mesh ids elem ns child =
     (elem_id (elems mesh child) \<in> set ids \<longrightarrow>
        ns < length (neighbors (elems mesh child)) \<and>
        (neighbors (elems mesh child) ! ns = Some elem \<longrightarrow>
           NDEBUG cfg \<or> active (elems mesh child)))"

text \<open>
  What they demand of a neighbour of \<open>elem\<close> that is refined, in a build with AMR: the
  neighbour has \<open>elem\<close> on one of its sides (the assertions of lines 309 and 416), and
  its active descendants are as above.
\<close>

definition neighbor_ok ::
  "Config \<Rightarrow> Env \<Rightarrow> MeshBase \<Rightarrow> nat list \<Rightarrow> nat \<Rightarrow> nat option \<Rightarrow> bool" where
  "neighbor_ok cfg env mesh ids elem neighbor =
     (case neighbor of
        None \<Rightarrow> True
      | Some nb \<Rightarrow>
          active (elems mesh nb) \<or> \<not> ENABLE_AMR cfg \<or>
          ((NDEBUG cfg \<or> which_neighbor_am_i env mesh nb elem < length (neighbors (elems mesh nb)))
           \<and> list_all (child_ok cfg mesh ids elem (which_neighbor_am_i env mesh nb elem))
                (active_family_tree env mesh nb)))"

text \<open>
  What they demand of an element of the range, \<open>ids\<close> being the ids of the range: the
  weight vector, if there is one, has an entry for its id; its neighbours are as above;
  each of its interior neighbours that belongs to the mesh is in the range (line 469
  looks it up in the index map).
\<close>

definition elem_ok :: "Config \<Rightarrow> Env \<Rightarrow> MeshBase \<Rightarrow> nat list \<Rightarrow> nat \<Rightarrow> bool" where
  "elem_ok cfg env mesh ids elem =
     ((case weights env of None \<Rightarrow> True | Some ws \<Rightarrow> elem_id (elems mesh elem) < length ws)
      \<and> list_all (neighbor_ok cfg env mesh ids elem) (neighbors (elems mesh elem))
      \<and> (has_interior_parent cfg (elems mesh elem) \<longrightarrow>
           list_all (\<lambda>nb. query_elem_ptr mesh (elem_id (elems mesh nb)) = Some nb \<longrightarrow>
                          elem_id (elems mesh nb) \<in> set ids)
             (std_set (find_interior_neighbors env mesh elem))))"

text \<open>
  A call is ready, on the mesh as it is after the gather, when the ids of the range are
  pairwise different, \<^verbatim>\<open>find_global_indices\<close> returns one index below \<open>n\<close> for each of
  the \<open>n\<close> elements (pairwise different ones in a build with unique ids), and, on rank 0,
  the elements of the range are as above and the engine, given a vector of length \<open>n\<close>
  for \<open>n\<close> vertices (\<open>n\<close> as line 225 casts it), leaves a vector of length \<open>n\<close>, on
  another rank, the vector received in the broadcast has length \<open>n\<close>.
\<close>

definition call_ready :: "Config \<Rightarrow> Env \<Rightarrow> MeshBase \<Rightarrow> nat list \<Rightarrow> bool" where
  "call_ready cfg env mesh elem_range =
     (let ids = map (\<lambda>elem. elem_id (elems mesh elem)) elem_range;
          global_index = find_global_indices env mesh elem_range;
          n = length elem_range
      in distinct ids
       \<and> length global_index = n
       \<and> list_all (\<lambda>h. h < n) global_index
       \<and> (ENABLE_UNIQUE_ID cfg \<longrightarrow> distinct global_index)
       \<and> (if mesh_processor_id mesh = 0
          then list_all (elem_ok cfg env mesh ids) elem_range
             \<and> (\<forall>a. nvtxs a = cast_idx_t cfg n \<and> length (part_in a) = n \<longrightarrow>
                    length (METIS_PartGraphRecursive env a) = n
                  \<and> length (METIS_PartGraphKway env a) = n)
          else length (root_part env) = n))"

subsection \<open>Concrete configurations, meshes and collaborators\<close>

text \<open>A build with assertions, without unique ids, with AMR and with the engine.\<close>

definition devel_config :: Config where
  "devel_config = \<lparr>HAVE_METIS = True, ENABLE_UNIQUE_ID = False, ENABLE_AMR = True,
     DEBUG = False, NDEBUG = False, LIBMESH_DIM = 3, processor_id_bits = 32,
     idx_t_bits = 32\<rparr>"

text \<open>The same build with \<^verbatim>\<open>NDEBUG\<close>.\<close>

definition opt_config :: Config where
  "opt_config = devel_config\<lparr>NDEBUG := True\<rparr>"

text \<open>The build of \<open>devel_config\<close> without the engine.\<close>

definition no_metis_config :: Config where
  "no_metis_config = devel_config\<lparr>HAVE_METIS := False\<rparr>"

definition quad4 :: "nat \<Rightarrow> nat option list \<Rightarrow> Elem" where
  "quad4 i ns = \<lparr>elem_id = i, processor_id = 0, active = True, dim = 2, n_nodes = 4,
     elem_type = QUAD4, mapping_type = LAGRANGE_MAP, neighbors = ns, interior_parent = None\<rparr>"

text \<open>
  Two quadrilaterals with ids 0 and 1, stored at the addresses 10 and 11, side 1 of the
  first against side 3 of the second; a replicated mesh, seen from rank 0.
\<close>

definition two_quads :: MeshBase where
  "two_quads = \<lparr>elems = (\<lambda>a. quad4 a [None, None, None, None])
       (10 := quad4 0 [None, Some 11, None, None], 11 := quad4 1 [None, None, None, Some 10]),
     query_elem_ptr = (\<lambda>i. if i = 0 then Some 10 else if i = 1 then Some 11 else None),
     active_elements = [10, 11], is_serial = True, mesh_processor_id = 0\<rparr>"

text \<open>The same mesh, not replicated.\<close>

definition distributed_quads :: MeshBase where
  "distributed_quads = two_quads\<lparr>is_serial := False\<rparr>"

text \<open>
  Collaborators for the examples: the index of an element is its id, no element has
  interior neighbours or refined neighbours, the gather makes the mesh a replicated one.
  The engine deals the vertices out in turn, the recursive entry point from part 0
  upwards and the k-way entry point from the last part downwards (and leaves
  \<^verbatim>\<open>part\<close> as it is when asked for no parts).
\<close>

definition simple_env :: Env where
  "simple_env = \<lparr>find_global_indices = (\<lambda>mesh es. map (\<lambda>e. elem_id (elems mesh e)) es),
     find_interior_neighbors = (\<lambda>mesh e. []),
     active_family_tree = (\<lambda>mesh e. [e]),
     which_neighbor_am_i = (\<lambda>mesh e n. 0),
     allgather = (\<lambda>mesh. mesh\<lparr>is_serial := True\<rparr>),
     METIS_PartGraphRecursive =
       (\<lambda>c. if nparts c \<le> 0 then part_in c
            else map (\<lambda>v. v mod nat (nparts c)) [0..<nat (nvtxs c)]),
     METIS_PartGraphKway =
       (\<lambda>c. if nparts c \<le> 0 then part_in c
            else map (\<lambda>v. nat (nparts c) - 1 - v mod nat (nparts c)) [0..<nat (nvtxs c)]),
     root_part = [0, 1],
     sfc_partition_range = (\<lambda>mesh es k. Inr mesh),
     weights = None\<rparr>"

text \<open>
  The same collaborators, except that every element gets the index 0 (elements whose
  places the space-filling curve does not tell apart).
\<close>

definition coincident_env :: Env where
  "coincident_env = simple_env\<lparr>find_global_indices := (\<lambda>mesh es. map (\<lambda>e. 0) es)\<rparr>"

text \<open>
  An edge of a boundary mesh, with id 0, stored at address 20. Its interior parent is a
  quadrilateral of the volume mesh, stored at address 30: it is in the store, and the
  boundary mesh has no element with its id.
\<close>

definition edge_on_boundary :: Elem where
  "edge_on_boundary = \<lparr>elem_id = 0, processor_id = 0, active = True, dim = 1, n_nodes = 2,
     elem_type = EDGE2, mapping_type = LAGRANGE_MAP, neighbors = [None, None],
     interior_parent = Some 30\<rparr>"

definition boundary_mesh :: MeshBase where
  "boundary_mesh = \<lparr>elems = (\<lambda>a. quad4 a [None, None, None, None])
       (20 := edge_on_boundary, 30 := quad4 7 [None, None, None, None]),
     query_elem_ptr = (\<lambda>i. if i = 0 then Some 20 else None),
     active_elements = [20], is_serial = True, mesh_processor_id = 0\<rparr>"

definition boundary_env :: Env where
  "boundary_env =
     simple_env\<lparr>find_interior_neighbors := (\<lambda>mesh e. if e = 20 then [30] else [])\<rparr>"

text \<open>
  A mesh of two elements: the edge with id 0 at address 20 and its interior parent, the
  quadrilateral with id 1 at address 30. With \<open>boundary_env\<close> the quadrilateral is the
  interior neighbour of the edge.
\<close>

definition mixed_mesh :: MeshBase where
  "mixed_mesh = \<lparr>elems = (\<lambda>a. quad4 a [None, None, None, None])
       (20 := edge_on_boundary, 30 := quad4 1 [None, None, None, None]),
     query_elem_ptr = (\<lambda>i. if i = 0 then Some 20 else if i = 1 then Some 30 else None),
     active_elements = [20, 30], is_serial = True, mesh_processor_id = 0\<rparr>"

definition fresh_process :: Process where
  "fresh_process = \<lparr>out = [], did_this_already = False, calls = []\<rparr>"

subsection \<open>A run of a process\<close>

text \<open>
  Calls of \<^verbatim>\<open>partition_range\<close> made one after the other by one process, each given by
  its mesh, its range and its \<open>n_pieces\<close>: every call begins in the state of the process
  that the call before it left, whether that call returned normally or not.
\<close>

fun run_calls :: "Config \<Rightarrow> Env \<Rightarrow> Process \<Rightarrow> (MeshBase \<times> nat list \<times> nat) list \<Rightarrow> Process" where
  "run_calls cfg env p [] = p"
| "run_calls cfg env p ((mesh, elem_range, n_pieces) # rest) =
     run_calls cfg env (fst (partition_range cfg env p mesh elem_range n_pieces)) rest"

subsection \<open>Notions used in the proofs\<close>

text \<open>
  \<open>buckets_of done m\<close>: the unordered map \<open>m\<close> holds, for each index that occurs in
  \<open>done\<close>, the ids that received it, in the order of \<open>done\<close>.
\<close>

definition buckets_of :: "(nat \<times> nat) list \<Rightarrow> (nat \<times> nat list) list \<Rightarrow> bool" where
  "buckets_of done m \<longleftrightarrow>
     distinct (map fst m) \<and>
     (\<forall>h. map_of m h =
        (if h \<in> snd ` set done then Some (map fst (filter (\<lambda>p. snd p = h) done)) else None))"

text \<open>
  The map of lines 131-174 in closed form: the pairs as they are, or the ids in the order
  of a stable sort by index, numbered from 0.
\<close>

definition fixed_map :: "Config \<Rightarrow> (nat \<times> nat) list \<Rightarrow> vectormap" where
  "fixed_map cfg pairs =
     (if ENABLE_UNIQUE_ID cfg \<or> distinct (map snd pairs) then pairs
      else map prod.swap (enumerate 0 (map fst (sort_key snd pairs))))"

text \<open>The row width that the first pass counts for an element (0 when the count fails).\<close>

definition row_width ::
  "Config \<Rightarrow> Env \<Rightarrow> MeshBase \<Rightarrow> vectormap \<Rightarrow> (nat \<times> nat) list \<Rightarrow> nat \<Rightarrow> nat" where
  "row_width cfg env mesh global_index_map interior_to_boundary_map elem =
     (case pass1_num_neighbors cfg env mesh global_index_map interior_to_boundary_map elem of
        Inl _ \<Rightarrow> 0 | Inr num_neighbors \<Rightarrow> num_neighbors)"

text \<open>A state of the second pass whose graph has the offsets and the number of values of \<open>g\<close>.\<close>

definition same_shape :: "CSR \<Rightarrow> CSR \<times> nat \<Rightarrow> bool" where
  "same_shape g st \<longleftrightarrow> offsets (fst st) = offsets g \<and> length (vals (fst st)) = length (vals g)"

text \<open>The keys of the index map are the ids of the range.\<close>

definition keys_are :: "vectormap \<Rightarrow> nat list \<Rightarrow> bool" where
  "keys_are gim ids \<longleftrightarrow> (\<forall>k. map_of gim k = None \<longleftrightarrow> k \<notin> set ids)"

text \<open>
  The counter of the first pass and the state of the second pass have advanced by the
  same amount, from \<open>n0\<close> and from \<open>c0\<close>.
\<close>

definition in_step :: "nat \<Rightarrow> nat \<Rightarrow> nat \<Rightarrow> CSR \<times> nat \<Rightarrow> bool" where
  "in_step n0 c0 n st \<longleftrightarrow> snd st + n0 = n + c0"

section \<open>Properties\<close>

subsection \<open>Sequencing and assertions\<close>

lemma bindE_simps [simp]: "bindE (Inl e) f = Inl e" "bindE (Inr x) f = f x"
  by (simp_all add: bindE_def)

lemma bindE_eq_Inr: "bindE m f = Inr y \<longleftrightarrow> (\<exists>x. m = Inr x \<and> f x = Inr y)"
  by (cases m) simp_all

lemma libmesh_assert_True [simp]: "libmesh_assert cfg l True = Inr ()"
  by (simp add: libmesh_assert_def)

subsection \<open>Dispatch\<close>

lemma elems_single_partition_range:
  "elems (single_partition_range mesh es) a =
     (if a \<in> set es then (elems mesh a)\<lparr>processor_id := 0\<rparr> else elems mesh a)"
proof (induction es arbitrary: a rule: rev_induct)
  case Nil
  show ?case by (simp add: single_partition_range_def)
next
  case (snoc e es)
  have "single_partition_range mesh (es @ [e]) =
          (single_partition_range mesh es)\<lparr>elems := (elems (single_partition_range mesh es))
             (e := (elems (single_partition_range mesh es) e)\<lparr>processor_id := 0\<rparr>)\<rparr>"
    by (simp add: single_partition_range_def)
  then show ?case using snoc.IH by simp
qed

lemma partition_vector_calls:
  assumes "partition_vector cfg env mesh gim es k = (cs, r)"
  shows "(cs = [] \<and> (\<exists>e. r = Inl e)) \<or> (cs = [Broadcast] \<and> mesh_processor_id mesh \<noteq> 0) \<or> (cs = [PartGraphRecursive, Broadcast] \<and> k \<le> 8)
         \<or> (cs = [PartGraphKway, Broadcast] \<and> 8 < k)"
  using assms
  by (auto simp: partition_vector_def metis_block_def Let_def bindE_eq_Inr split: if_splits sum.splits prod.splits)

lemma metis_partition_range_process:
  "\<exists>cs. fst (metis_partition_range cfg env p mesh es k) = p\<lparr>calls := calls p @ FindGlobalIndices # cs\<rparr>
     \<and> (cs = [] \<or> cs = [Broadcast] \<or> (cs = [PartGraphRecursive, Broadcast] \<and> k \<le> 8)
         \<or> (cs = [PartGraphKway, Broadcast] \<and> 8 < k))"
proof (cases "build_global_index_map cfg (map (\<lambda>elem. elem_id (elems mesh elem)) es) (find_global_indices env mesh es)")
  case (Inl e)
  then show ?thesis by (intro exI [of _ "[]"]) (simp add: metis_partition_range_def Let_def)
next
  case (Inr gim)
  obtain cs r where pv: "partition_vector cfg env mesh gim es k = (cs, r)"
    by (cases "partition_vector cfg env mesh gim es k")
  from partition_vector_calls [OF pv] Inr pv show ?thesis
    by (cases r) (auto simp: metis_partition_range_def Let_def)
qed


lemma warning_neq_notice: "gather_warning \<notin> set no_metis_notice"
  by (simp add: gather_warning_def no_metis_notice_def)

lemma gather_if_distributed_out:
  "out (fst (gather_if_distributed env p mesh)) =
     (if is_serial mesh then out p else out p @ [gather_warning])"
  "calls (fst (gather_if_distributed env p mesh)) =
     (if is_serial mesh then calls p else calls p @ [Allgather])"
  by (simp_all add: gather_if_distributed_def)

lemma partition_range_calls:
  "\<exists>g cs. calls (fst (partition_range cfg env p mesh es k)) = calls p @ g @ cs
     \<and> (g = [] \<or> g = [Allgather] \<and> \<not> is_serial mesh)
     \<and> (cs = [] \<or> cs = [SFCPartition] \<or> cs = [FindGlobalIndices]
        \<or> cs = [FindGlobalIndices, Broadcast]
        \<or> (cs = [FindGlobalIndices, PartGraphRecursive, Broadcast] \<and> k \<le> 8)
        \<or> (cs = [FindGlobalIndices, PartGraphKway, Broadcast] \<and> 8 < k))"
proof -
  obtain p1 mesh1 where g: "gather_if_distributed env p mesh = (p1, mesh1)"
    by (cases "gather_if_distributed env p mesh")
  obtain g0 where g0: "calls p1 = calls p @ g0" "g0 = [] \<or> g0 = [Allgather] \<and> \<not> is_serial mesh"
    using gather_if_distributed_out(2) [of env p mesh] g by (cases "is_serial mesh") auto
  have triv: "calls p = calls p @ [] @ []" by simp
  consider (ret) "es = [] \<or> k = 1 \<or> (\<exists>e. libmesh_assert cfg 84 (0 < k) = Inl e)"
    | (sfc) "es \<noteq> []" "k \<noteq> 1" "\<exists>u. libmesh_assert cfg 84 (0 < k) = Inr u" "\<not> HAVE_METIS cfg"
    | (metis) "es \<noteq> []" "k \<noteq> 1" "\<exists>u. libmesh_assert cfg 84 (0 < k) = Inr u" "HAVE_METIS cfg"
    by (cases "libmesh_assert cfg 84 (0 < k)") auto
  then show ?thesis
  proof cases
    case ret
    then have "calls (fst (partition_range cfg env p mesh es k)) = calls p @ [] @ []"
      by (auto simp: partition_range_def)
    then show ?thesis by blast
  next
    case sfc
    then have "calls (fst (partition_range cfg env p mesh es k)) = calls p @ g0 @ [SFCPartition]"
      using g g0(1) by (auto simp: partition_range_def libmesh_do_once_def Let_def)
    with g0(2) show ?thesis by blast
  next
    case metis
    then have e: "partition_range cfg env p mesh es k = metis_partition_range cfg env p1 mesh1 es k"
      using g by (auto simp: partition_range_def)
    from metis_partition_range_process [of cfg env p1 mesh1 es k]
    obtain cs where cs: "fst (metis_partition_range cfg env p1 mesh1 es k) =
          p1\<lparr>calls := calls p1 @ FindGlobalIndices # cs\<rparr>"
      "cs = [] \<or> cs = [Broadcast] \<or> (cs = [PartGraphRecursive, Broadcast] \<and> k \<le> 8)
         \<or> (cs = [PartGraphKway, Broadcast] \<and> 8 < k)" by blast
    have "calls (fst (partition_range cfg env p mesh es k)) = calls p @ g0 @ (FindGlobalIndices # cs)"
      by (simp add: e cs(1) g0(1))
    with g0(2) cs(2) show ?thesis by blast
  qed
qed

subsection \<open>The global index map\<close>

lemma foldl_vm_emplace:
  "foldl (\<lambda>m p. vm_emplace m (fst p) (snd p)) acc pairs = acc @ pairs"
  by (induction pairs arbitrary: acc) (simp_all add: vm_emplace_def)

lemma emplace_direct_eq: "emplace_direct pairs = pairs"
  by (simp add: emplace_direct_def foldl_vm_emplace)

lemma emplace_ids_eq:
  "emplace_ids xs (m, k) = (m @ map prod.swap (enumerate k xs), k + length xs)"
  by (induction xs arbitrary: m k) (simp_all add: vm_emplace_def)

lemma foldl_emplace_ids:
  "foldl (\<lambda>acc bucket. emplace_ids (snd bucket) acc) (m, k) bs =
     (m @ map prod.swap (enumerate k (concat (map snd bs))), k + length (concat (map snd bs)))"
  by (induction bs arbitrary: m k) (simp_all add: emplace_ids_eq enumerate_append_eq add.assoc)

lemma renumber_eq:
  "renumber bs = map prod.swap (enumerate 0 (concat (map snd (sort_key fst bs))))"
  by (simp add: renumber_def foldl_emplace_ids)

text \<open>The buckets after the loop of lines 146-152.\<close>

lemma map_fst_inverses_push:
  "map fst (inverses_push m h i) = (if h \<in> set (map fst m) then map fst m else map fst m @ [h])"
  by (induction m h i rule: inverses_push.induct) auto

lemma map_of_inverses_push:
  "map_of (inverses_push m h i) =
     (map_of m)(h \<mapsto> (case map_of m h of None \<Rightarrow> [] | Some vec \<Rightarrow> vec) @ [i])"
  by (induction m h i rule: inverses_push.induct) (auto simp: fun_eq_iff)

lemma buckets_of_Nil: "buckets_of [] []"
  by (simp add: buckets_of_def)

lemma filter_snd_absent: "h \<notin> snd ` set xs \<Longrightarrow> filter (\<lambda>p. snd p = h) xs = []"
  by (induction xs) auto

lemma buckets_of_push:
  assumes "buckets_of done m"
  shows "buckets_of (done @ [(i, h)]) (inverses_push m h i)"
proof -
  have d: "distinct (map fst (inverses_push m h i))"
    using assms by (simp add: buckets_of_def map_fst_inverses_push)
  have "map_of (inverses_push m h i) h' =
        (if h' \<in> snd ` set (done @ [(i, h)])
         then Some (map fst (filter (\<lambda>p. snd p = h') (done @ [(i, h)]))) else None)" for h'
    using assms by (auto simp: buckets_of_def map_of_inverses_push filter_snd_absent)
  with d show ?thesis by (simp add: buckets_of_def)
qed

lemma buckets_of_found:
  assumes "buckets_of done m"
  shows "(case map_of m h of None \<Rightarrow> f | Some vec \<Rightarrow> if vec \<noteq> [] then True else f) =
         (f \<or> h \<in> snd ` set done)"
proof (cases "h \<in> snd ` set done")
  case True
  then obtain p where "p \<in> set done" "snd p = h" by auto
  then have "filter (\<lambda>p. snd p = h) done \<noteq> []"
    by (auto simp: filter_empty_conv)
  with True assms show ?thesis by (simp add: buckets_of_def)
next
  case False
  with assms show ?thesis by (simp add: buckets_of_def)
qed

lemma collect_inverses_buckets:
  assumes "buckets_of done m"
  shows "buckets_of (done @ pairs) (fst (collect_inverses pairs (m, f)))
       \<and> snd (collect_inverses pairs (m, f)) =
           (f \<or> \<not> distinct (map snd pairs) \<or> snd ` set pairs \<inter> snd ` set done \<noteq> {})"
  using assms
proof (induction pairs arbitrary: m f "done")
  case Nil
  then show ?case by simp
next
  case (Cons p pairs)
  obtain i h where p: "p = (i, h)" by (cases p)
  have b: "buckets_of (done @ [(i, h)]) (inverses_push m h i)"
    by (rule buckets_of_push [OF Cons.prems])
  show ?case
    using Cons.IH [OF b] buckets_of_found [OF Cons.prems, where h = h and f = f]
    by (auto simp: p)
qed

lemma collect_inverses_start:
  "buckets_of pairs (fst (collect_inverses pairs ([], False)))"
  "snd (collect_inverses pairs ([], False)) = (\<not> distinct (map snd pairs))"
  using collect_inverses_buckets [OF buckets_of_Nil, of pairs False] by simp_all

subsection \<open>Buckets in key order are a stable sort\<close>

lemma blocks_filter:
  "distinct ks \<Longrightarrow>
   filter (\<lambda>x. snd x = h) (concat (map (\<lambda>k. filter (\<lambda>p. snd p = k) pairs) ks)) =
     (if h \<in> set ks then filter (\<lambda>p. snd p = h) pairs else [])"
proof (induction ks)
  case Nil
  show ?case by simp
next
  case (Cons k ks)
  have "filter (\<lambda>x. snd x = h) (filter (\<lambda>p. snd p = k) pairs) =
          (if k = h then filter (\<lambda>p. snd p = h) pairs else [])"
    by (induction pairs) auto
  with Cons show ?case by auto
qed

lemma mset_filter_disjoint:
  "(\<And>x. \<not> (P x \<and> Q x)) \<Longrightarrow>
   mset (filter P xs) + mset (filter Q xs) = mset (filter (\<lambda>x. P x \<or> Q x) xs)"
  by (induction xs) auto

lemma blocks_mset:
  "distinct ks \<Longrightarrow>
   mset (concat (map (\<lambda>k. filter (\<lambda>p. snd p = k) pairs) ks)) =
     mset (filter (\<lambda>p. snd p \<in> set ks) pairs)"
proof (induction ks)
  case Nil
  show ?case by simp
next
  case (Cons k ks)
  have "mset (filter (\<lambda>p. snd p = k) pairs) + mset (filter (\<lambda>p. snd p \<in> set ks) pairs) =
        mset (filter (\<lambda>p. snd p = k \<or> snd p \<in> set ks) pairs)"
    using Cons.prems by (intro mset_filter_disjoint) auto
  with Cons show ?case by simp
qed

lemma blocks_sorted:
  "sorted ks \<Longrightarrow> sorted (map snd (concat (map (\<lambda>k. filter (\<lambda>p. snd p = k) pairs) ks)))"
  by (induction ks) (auto simp: sorted_append sorted_map_same [where g = "\<lambda>_. k" for k])

lemma blocks_sort:
  assumes "sorted ks" "distinct ks" "snd ` set pairs \<subseteq> set ks"
  shows "concat (map (\<lambda>k. filter (\<lambda>p. snd p = k) pairs) ks) = sort_key snd pairs"
proof (rule properties_for_sort_key [symmetric])
  have "filter (\<lambda>p. snd p \<in> set ks) pairs = pairs"
    using assms(3) by (auto simp: filter_id_conv)
  then show "mset (concat (map (\<lambda>k. filter (\<lambda>p. snd p = k) pairs) ks)) = mset pairs"
    by (simp add: blocks_mset [OF assms(2)])
next
  fix x assume "x \<in> set (concat (map (\<lambda>k. filter (\<lambda>p. snd p = k) pairs) ks))"
  then have "snd x \<in> set ks" by auto
  then show "filter (\<lambda>y. snd x = snd y) (concat (map (\<lambda>k. filter (\<lambda>p. snd p = k) pairs) ks)) =
             filter (\<lambda>y. snd x = snd y) pairs"
    using blocks_filter [OF assms(2), of "snd x" pairs] by (simp add: eq_commute)
next
  show "sorted (map snd (concat (map (\<lambda>k. filter (\<lambda>p. snd p = k) pairs) ks)))"
    by (rule blocks_sorted [OF assms(1)])
qed

lemma buckets_flat:
  assumes "buckets_of pairs bs"
  shows "concat (map snd (sort_key fst bs)) = map fst (sort_key snd pairs)"
proof -
  let ?S = "sort_key fst bs"
  let ?ks = "map fst ?S"
  from assms have d: "distinct (map fst bs)"
    and look: "\<And>h. map_of bs h =
        (if h \<in> snd ` set pairs then Some (map fst (filter (\<lambda>p. snd p = h) pairs)) else None)"
    by (simp_all add: buckets_of_def)
  have el: "snd x = map fst (filter (\<lambda>p. snd p = fst x) pairs) \<and> fst x \<in> snd ` set pairs"
    if "x \<in> set bs" for x
  proof -
    from that d have "map_of bs (fst x) = Some (snd x)" by simp
    with look [of "fst x"] show ?thesis by (auto split: if_splits)
  qed
  have keys: "set (map fst bs) = snd ` set pairs"
  proof -
    have "h \<in> fst ` set bs \<longleftrightarrow> h \<in> snd ` set pairs" for h
      using look [of h] map_of_eq_None_iff [of bs h] by (auto split: if_splits)
    then show ?thesis by auto
  qed
  have "mset ?ks = mset (map fst bs)" by simp
  then have dks: "distinct ?ks" using d mset_eq_imp_distinct_iff by blast
  have sks: "sorted ?ks" by (rule sorted_sort_key)
  have cov: "snd ` set pairs \<subseteq> set ?ks" using keys by simp
  have m: "map snd ?S = map (\<lambda>k. map fst (filter (\<lambda>p. snd p = k) pairs)) ?ks"
    using el by simp
  have "concat (map snd ?S) =
          concat (map (\<lambda>k. map fst (filter (\<lambda>p. snd p = k) pairs)) ?ks)"
    by (simp only: m)
  also have "\<dots> = map fst (concat (map (\<lambda>k. filter (\<lambda>p. snd p = k) pairs) ?ks))"
    by (simp add: map_concat comp_def)
  also have "\<dots> = map fst (sort_key snd pairs)"
    by (simp only: blocks_sort [OF sks dks cov])
  finally show ?thesis .
qed

lemma renumber_collect:
  "renumber (fst (collect_inverses pairs ([], False))) =
     map prod.swap (enumerate 0 (map fst (sort_key snd pairs)))"
  by (simp add: renumber_eq buckets_flat [OF collect_inverses_start(1)])


lemma length_fixed_map: "length (fixed_map cfg pairs) = length pairs"
  by (simp add: fixed_map_def)

lemma map_fst_fixed_map:
  "map fst (fixed_map cfg pairs) =
     (if ENABLE_UNIQUE_ID cfg \<or> distinct (map snd pairs) then map fst pairs
      else map fst (sort_key snd pairs))"
  by (simp add: fixed_map_def comp_def)

lemma map_snd_fixed_map:
  "map snd (fixed_map cfg pairs) =
     (if ENABLE_UNIQUE_ID cfg \<or> distinct (map snd pairs) then map snd pairs
      else [0..<length pairs])"
  by (simp add: fixed_map_def comp_def)

lemma build_global_index_map_eq:
  assumes "length global_index = length ids"
  shows "build_global_index_map cfg ids global_index =
     (let m = fixed_map cfg (zip ids global_index) in
      bindE (if DEBUG cfg
             then bindE (libmesh_assert cfg 185 (length (remdups (map snd m)) = length ids)) (\<lambda>_.
                         libmesh_assert cfg 186 (length (remdups (map fst m)) = length ids))
             else Inr ()) (\<lambda>_. Inr m))"
  using assms
  by (simp add: build_global_index_map_def Let_def emplace_direct_eq collect_inverses_start(2)
      renumber_collect fixed_map_def case_prod_unfold)

lemma bij_betw_map_of:
  assumes "distinct (map fst ps)" "distinct (map snd ps)"
  shows "bij_betw (\<lambda>k. the (map_of ps k)) (set (map fst ps)) (set (map snd ps))"
  unfolding bij_betw_def
proof
  have inj: "inj_on snd (set ps)" using assms(2) by (simp add: distinct_map)
  show "inj_on (\<lambda>k. the (map_of ps k)) (set (map fst ps))"
  proof (rule inj_onI)
    fix k k' assume k: "k \<in> set (map fst ps)" and k': "k' \<in> set (map fst ps)"
      and eq: "the (map_of ps k) = the (map_of ps k')"
    from k obtain v where v: "(k, v) \<in> set ps" by auto
    from k' obtain v' where v': "(k', v') \<in> set ps" by auto
    from v v' assms(1) eq have "v = v'" by simp
    with inj_onD [OF inj, of "(k, v)" "(k', v')"] v v' show "k = k'" by simp
  qed
  show "(\<lambda>k. the (map_of ps k)) ` set (map fst ps) = set (map snd ps)"
  proof (intro set_eqI iffI)
    fix v assume "v \<in> (\<lambda>k. the (map_of ps k)) ` set (map fst ps)"
    then obtain k v' where "(k, v') \<in> set ps" "v = the (map_of ps k)" by auto
    with assms(1) show "v \<in> set (map snd ps)" by force
  next
    fix v assume "v \<in> set (map snd ps)"
    then obtain k where kv: "(k, v) \<in> set ps" by auto
    with assms(1) have "the (map_of ps k) = v" by simp
    with kv show "v \<in> (\<lambda>k. the (map_of ps k)) ` set (map fst ps)" by force
  qed
qed

lemma distinct_below_full:
  assumes "distinct (xs :: nat list)" "\<forall>x \<in> set xs. x < length xs"
  shows "set xs = {..<length xs}"
proof (rule card_subset_eq)
  show "finite {..<length xs}" by simp
  show "set xs \<subseteq> {..<length xs}" using assms(2) by auto
  show "card (set xs) = card {..<length xs}" using assms(1) by (simp add: distinct_card)
qed

lemma fixed_map_props:
  assumes "distinct (map fst pairs)"
    and "\<forall>h \<in> set (map snd pairs). h < length pairs"
    and "ENABLE_UNIQUE_ID cfg \<longrightarrow> distinct (map snd pairs)"
  shows "mset (map fst (fixed_map cfg pairs)) = mset (map fst pairs)"
    and "distinct (map snd (fixed_map cfg pairs))"
    and "set (map snd (fixed_map cfg pairs)) = {..<length pairs}"
proof -
  show "mset (map fst (fixed_map cfg pairs)) = mset (map fst pairs)"
    by (simp add: map_fst_fixed_map)
  show "distinct (map snd (fixed_map cfg pairs))"
    using assms(3) by (auto simp: map_snd_fixed_map)
  show "set (map snd (fixed_map cfg pairs)) = {..<length pairs}"
  proof (cases "ENABLE_UNIQUE_ID cfg \<or> distinct (map snd pairs)")
    case True
    with assms(3) have "distinct (map snd pairs)" by blast
    from distinct_below_full [OF this] assms(2) True show ?thesis
      by (simp add: map_snd_fixed_map)
  next
    case False
    then show ?thesis by (auto simp: map_snd_fixed_map)
  qed
qed

lemma mset_from_classes:
  assumes "\<And>h. filter (\<lambda>p. f p = h) xs = filter (\<lambda>p. f p = h) ys"
  shows "mset xs = mset ys"
proof (rule multiset_eqI)
  fix x
  have "count (mset xs) x = count (mset (filter (\<lambda>p. f p = f x) xs)) x"
    by simp
  also have "\<dots> = count (mset (filter (\<lambda>p. f p = f x) ys)) x"
    by (simp only: assms)
  also have "\<dots> = count (mset ys) x"
    by simp
  finally show "count (mset xs) x = count (mset ys) x" .
qed

lemma sort_key_classes:
  assumes "\<And>h. filter (\<lambda>p. f p = h) xs = filter (\<lambda>p. f p = h) ys"
  shows "sort_key f xs = sort_key f ys"
proof (rule properties_for_sort_key)
  show "mset (sort_key f ys) = mset xs"
    using mset_from_classes [of f xs ys] assms by simp
  show "filter (\<lambda>x. f k = f x) (sort_key f ys) = filter (\<lambda>x. f k = f x) xs" for k
    using sort_key_stable [of f "f k" ys] assms [of "f k"] by (simp add: eq_commute)
  show "sorted (map f (sort_key f ys))" by (rule sorted_sort_key)
qed
lemma build_global_index_map_ok:
  assumes "distinct ids"
    and "length global_index = length ids"
    and "\<forall>h \<in> set global_index. h < length ids"
    and "ENABLE_UNIQUE_ID cfg \<longrightarrow> distinct global_index"
  shows "\<exists>global_index_map.
           build_global_index_map cfg ids global_index = Inr global_index_map
         \<and> length global_index_map = length ids
         \<and> distinct (map fst global_index_map)
         \<and> set (map fst global_index_map) = set ids
         \<and> distinct (map snd global_index_map)
         \<and> set (map snd global_index_map) = {..<length ids}
         \<and> bij_betw (\<lambda>i. the (map_of global_index_map i)) (set ids) {..<length ids}"
proof -
  let ?pairs = "zip ids global_index"
  let ?m = "fixed_map cfg ?pairs"
  have f: "map fst ?pairs = ids" and s: "map snd ?pairs = global_index"
    and l: "length ?pairs = length ids"
    using assms(2) by simp_all
  have ms: "mset (map fst ?m) = mset ids"
    and ds: "distinct (map snd ?m)"
    and ss: "set (map snd ?m) = {..<length ids}"
    using fixed_map_props [of ?pairs cfg] assms by (simp_all only: f s l)
  from ms assms(1) have df: "distinct (map fst ?m)"
    using mset_eq_imp_distinct_iff by blast
  from ms have sf: "set (map fst ?m) = set ids" by (rule mset_eq_setD)
  have len: "length ?m = length ids" by (simp add: length_fixed_map assms(2))
  have r1: "length (remdups (map snd ?m)) = length ids"
    using ds len by (simp add: distinct_remdups_id)
  have r2: "length (remdups (map fst ?m)) = length ids"
    using df len by (simp add: distinct_remdups_id)
  have b: "build_global_index_map cfg ids global_index = Inr ?m"
    by (simp add: build_global_index_map_eq [OF assms(2)] Let_def r1 r2)
  have bij: "bij_betw (\<lambda>i. the (map_of ?m i)) (set ids) {..<length ids}"
    using bij_betw_map_of [OF df ds] by (simp only: sf ss)
  from b len df sf ds ss bij show ?thesis by blast
qed

text \<open>
  Two iteration orders that list the same elements (pairwise different ids, each with its
  index) and agree, for every index value, on the relative order of the elements with
  that index, give the same result: the same lookup function from id to index, or the
  same failed assertion. The map that is built holds the pairs of id and index as they
  are when the indices are pairwise different (or the build has unique ids); otherwise it
  numbers the ids from 0 in the order of a stable sort of the range by index: increasing
  index, and among elements with the same index the order of iteration.
\<close>

lemma build_global_index_map_classes:
  assumes "distinct (map fst pairs)"
    and "\<And>h. filter (\<lambda>p. snd p = h) pairs' = filter (\<lambda>p. snd p = h) pairs"
  shows "map_sum id map_of (build_global_index_map cfg (map fst pairs') (map snd pairs')) =
         map_sum id map_of (build_global_index_map cfg (map fst pairs) (map snd pairs))
       \<and> (\<forall>global_index_map.
            build_global_index_map cfg (map fst pairs) (map snd pairs) = Inr global_index_map \<longrightarrow>
            global_index_map =
              (if ENABLE_UNIQUE_ID cfg \<or> distinct (map snd pairs) then pairs
               else map prod.swap (enumerate 0 (map fst (sort_key snd pairs)))))"
proof -
  have m: "mset pairs' = mset pairs"
    by (rule mset_from_classes [of snd]) (rule assms(2))
  have srt: "sort_key snd pairs' = sort_key snd pairs"
    by (rule sort_key_classes) (rule assms(2))
  have d': "distinct (map fst pairs')"
    using m assms(1) by (metis mset_eq_imp_distinct_iff mset_map)
  have ds: "distinct (map snd pairs') = distinct (map snd pairs)"
    using m by (metis mset_eq_imp_distinct_iff mset_map)
  have len: "length pairs' = length pairs" using m by (rule mset_eq_length)
  have "map_of pairs' = map_of pairs"
    using map_of_inject_set [OF d' assms(1)] mset_eq_setD [OF m] by simp
  then have mo: "map_of (fixed_map cfg pairs') = map_of (fixed_map cfg pairs)"
    by (simp add: fixed_map_def ds srt)
  have f: "mset (map fst (fixed_map cfg pairs')) = mset (map fst (fixed_map cfg pairs))"
    using m by (simp add: map_fst_fixed_map ds srt)
  have s: "mset (map snd (fixed_map cfg pairs')) = mset (map snd (fixed_map cfg pairs))"
    using m by (simp add: map_snd_fixed_map ds len)
  have r: "length (remdups xs) = length (remdups ys)" if "mset xs = mset ys" for xs ys :: "nat list"
  proof -
    have "set xs = set ys" using that by (rule mset_eq_setD)
    then show ?thesis by (metis length_remdups_card_conv)
  qed
  have same: "map_sum id map_of (build_global_index_map cfg (map fst pairs') (map snd pairs')) =
         map_sum id map_of (build_global_index_map cfg (map fst pairs) (map snd pairs))"
    by (simp add: build_global_index_map_eq zip_map_fst_snd Let_def len r [OF f] r [OF s] mo
        libmesh_assert_def)
  have form: "global_index_map = fixed_map cfg pairs"
    if "build_global_index_map cfg (map fst pairs) (map snd pairs) = Inr global_index_map"
    for global_index_map
    using that
    by (simp add: build_global_index_map_eq zip_map_fst_snd Let_def bindE_eq_Inr)
  from same form show ?thesis by (simp add: fixed_map_def)
qed

subsection \<open>The CSR graph\<close>

lemma foldE_preserves:
  assumes "foldE f xs s = Inr s'" and "P s"
    and "\<And>x t t'. f x t = Inr t' \<Longrightarrow> P t \<Longrightarrow> P t'"
  shows "P s'"
  using assms(1,2)
proof (induction xs arbitrary: s)
  case Nil
  then show ?case by simp
next
  case (Cons x xs)
  from Cons.prems(1) obtain t where t: "f x s = Inr t" and r: "foldE f xs t = Inr s'"
    by (auto split: sum.splits)
  have "P t" using assms(3) [OF t Cons.prems(2)] .
  from Cons.IH [OF r this] show ?case .
qed

lemma partial_sum_Nil_iff [simp]: "partial_sum a xs = [] \<longleftrightarrow> xs = []"
  by (cases xs) simp_all

lemma last_partial_sum: "xs \<noteq> [] \<Longrightarrow> last (partial_sum a xs) = a + sum_list xs"
proof (induction xs arbitrary: a)
  case Nil
  then show ?case by simp
next
  case (Cons x xs)
  show ?case
  proof (cases "xs = []")
    case True
    then show ?thesis by simp
  next
    case False
    from Cons.IH [OF False, of "a + x"] False show ?thesis by (simp add: add.assoc)
  qed
qed

lemma length_partial_sum [simp]: "length (partial_sum a xs) = length xs"
  by (induction xs arbitrary: a) simp_all

lemma length_vals_prepare_for_use:
  assumes "offsets g \<noteq> []"
  shows "length (vals (prepare_for_use g)) = max (sum_list (offsets g)) 1"
proof (cases "sum_list (offsets g) = 0")
  case True
  with assms show ?thesis
    by (simp add: prepare_for_use_def Let_def last_partial_sum del: sum_list_eq_0_iff)
next
  case False
  with assms show ?thesis
    by (simp add: prepare_for_use_def Let_def last_partial_sum del: sum_list_eq_0_iff)
qed

lemma csr_set_shape:
  "csr_set l g row nz v = Inr g' \<Longrightarrow> offsets g' = offsets g \<and> length (vals g') = length (vals g)"
  by (auto simp: csr_set_def split: if_splits)

lemma pass2_child_shape:
  "pass2_child cfg mesh gim elem idx ns child st = Inr st' \<Longrightarrow> same_shape g st \<Longrightarrow> same_shape g st'"
  by (cases st) (auto simp: pass2_child_def same_shape_def bindE_eq_Inr dest!: csr_set_shape split: if_splits)

lemma pass2_neighbor_shape:
  assumes "pass2_neighbor cfg env mesh gim elem idx nb st = Inr st'" "same_shape g st"
  shows "same_shape g st'"
proof (cases nb)
  case None
  with assms show ?thesis by (cases st) (simp add: pass2_neighbor_def)
next
  case (Some n)
  obtain c k where st: "st = (c, k)" by (cases st)
  show ?thesis
  proof (cases "active (elems mesh n)")
    case True
    show ?thesis
    proof (cases "vm_count gim (elem_id (elems mesh n)) = 0")
      case z: True
      with assms True Some st show ?thesis by (simp add: pass2_neighbor_def)
    next
      case nz: False
      with assms(1) True Some st obtain v g' where
        "csr_set 403 c idx k v = Inr g'" "st' = (g', k + 1)"
        by (simp add: pass2_neighbor_def bindE_eq_Inr) blast
      with assms(2) st show ?thesis by (auto simp: same_shape_def dest!: csr_set_shape)
    qed
  next
    case False
    show ?thesis
    proof (cases "ENABLE_AMR cfg")
      case amr: True
      with assms(1) False Some st have
        "foldE (pass2_child cfg mesh gim elem idx (which_neighbor_am_i env mesh n elem))
               (active_family_tree env mesh n) st = Inr st'"
        by (simp add: pass2_neighbor_def bindE_eq_Inr Let_def)
      then show ?thesis
        by (rule foldE_preserves [where P = "same_shape g", OF _ assms(2)]) (rule pass2_child_shape)
    next
      case noamr: False
      with assms False Some st show ?thesis by (simp add: pass2_neighbor_def)
    qed
  qed
qed

lemma pass2_interior_shape:
  "pass2_interior mesh gim idx nb st = Inr st' \<Longrightarrow> same_shape g st \<Longrightarrow> same_shape g st'"
  by (cases st) (auto simp: pass2_interior_def same_shape_def bindE_eq_Inr dest!: csr_set_shape split: if_splits)

lemma pass2_boundary_shape:
  "pass2_boundary mesh gim idx pr st = Inr st' \<Longrightarrow> same_shape g st \<Longrightarrow> same_shape g st'"
  by (cases st) (auto simp: pass2_boundary_def same_shape_def bindE_eq_Inr dest!: csr_set_shape split: if_splits)

lemma pass2_elem_shape:
  assumes "pass2_elem cfg env mesh gim i2b elem g = Inr st'"
  shows "same_shape g st'"
proof -
  from assms obtain idx st1 st2 where
    1: "foldE (pass2_neighbor cfg env mesh gim elem idx) (neighbors (elems mesh elem)) (g, 0) = Inr st1"
    and 2: "(if has_interior_parent cfg (elems mesh elem)
            then foldE (pass2_interior mesh gim idx)
                   (std_set (find_interior_neighbors env mesh elem)) st1
            else Inr st1) = Inr st2"
    and 3: "foldE (pass2_boundary mesh gim idx) (equal_range i2b elem) st2 = Inr st'"
    by (auto simp: pass2_elem_def bindE_eq_Inr)
  have 0: "same_shape g (g, 0)" by (simp add: same_shape_def)
  have s1: "same_shape g st1"
    by (rule foldE_preserves [where P = "same_shape g", OF 1 0]) (rule pass2_neighbor_shape)
  have s2: "same_shape g st2"
  proof (cases "has_interior_parent cfg (elems mesh elem)")
    case True
    with 2 have "foldE (pass2_interior mesh gim idx)
                   (std_set (find_interior_neighbors env mesh elem)) st1 = Inr st2" by simp
    then show ?thesis
      by (rule foldE_preserves [where P = "same_shape g", OF _ s1]) (rule pass2_interior_shape)
  next
    case False
    with 2 s1 show ?thesis by simp
  qed
  show ?thesis
    by (rule foldE_preserves [where P = "same_shape g", OF 3 s2]) (rule pass2_boundary_shape)
qed

lemma pass2_loop_shape:
  assumes "foldE (\<lambda>elem g. bindE (pass2_elem cfg env mesh gim i2b elem g) (\<lambda>r. Inr (fst r))) es g0 = Inr g"
  shows "offsets g = offsets g0 \<and> length (vals g) = length (vals g0)"
proof (rule foldE_preserves [OF assms, where P = "\<lambda>g. offsets g = offsets g0 \<and> length (vals g) = length (vals g0)"])
  show "offsets g0 = offsets g0 \<and> length (vals g0) = length (vals g0)" by simp
next
  fix x t t'
  assume "bindE (pass2_elem cfg env mesh gim i2b x t) (\<lambda>r. Inr (fst r)) = Inr t'"
    and t: "offsets t = offsets g0 \<and> length (vals t) = length (vals g0)"
  then obtain r where "pass2_elem cfg env mesh gim i2b x t = Inr r" "t' = fst r"
    by (auto simp: bindE_eq_Inr)
  with pass2_elem_shape [of cfg env mesh gim i2b x t r] t
  show "offsets t' = offsets g0 \<and> length (vals t') = length (vals g0)"
    by (simp add: same_shape_def)
qed


lemma vm_index_eq_Inr: "vm_index l m k = Inr v \<longleftrightarrow> map_of m k = Some v"
  by (simp add: vm_index_def split: option.splits)

lemma pass1_elem_step:
  assumes "pass1_elem cfg env mesh gim i2b elem (vwgt, g, gs) = Inr (vwgt', g', gs')"
  shows "\<exists>idx. map_of gim (elem_id (elems mesh elem)) = Some idx
           \<and> idx < length vwgt \<and> idx + 1 < length (offsets g)
           \<and> length vwgt' = length vwgt
           \<and> offsets g' = (offsets g)[idx + 1 := row_width cfg env mesh gim i2b elem]
           \<and> vals g' = vals g
           \<and> gs' = gs + row_width cfg env mesh gim i2b elem"
proof -
  from assms obtain idx where idx: "map_of gim (elem_id (elems mesh elem)) = Some idx"
    and r1: "bindE (libmesh_assert cfg 260 (idx < length vwgt)) (\<lambda>_.
       if \<not> idx < length vwgt then Inl (OutOfBounds 272)
       else
       bindE (elem_weight env (elems mesh elem)) (\<lambda>w.
       bindE (pass1_num_neighbors cfg env mesh gim i2b elem)
         (\<lambda>num_neighbors.
       if \<not> idx + 1 < length (offsets g) then Inl (OutOfBounds 370)
       else
       bindE (libmesh_assert cfg 370 (offsets g ! (idx + 1) = 0)) (\<lambda>_.
       Inr (vwgt[idx := w],
            prep_n_nonzeros g idx num_neighbors,
            gs + num_neighbors))))) = Inr (vwgt', g', gs')"
    unfolding pass1_elem_def by (simp add: bindE_eq_Inr vm_index_eq_Inr) blast
  from r1 have lt: "idx < length vwgt"
    by (cases "idx < length vwgt") (simp_all add: bindE_eq_Inr)
  with r1 obtain w num where num: "pass1_num_neighbors cfg env mesh gim i2b elem = Inr num"
    and r2: "(if \<not> idx + 1 < length (offsets g) then Inl (OutOfBounds 370)
       else
       bindE (libmesh_assert cfg 370 (offsets g ! (idx + 1) = 0)) (\<lambda>_.
       Inr (vwgt[idx := w],
            prep_n_nonzeros g idx num,
            gs + num))) = Inr (vwgt', g', gs')"
    by (simp add: bindE_eq_Inr) blast
  from r2 have lt2: "idx + 1 < length (offsets g)"
    by (cases "idx + 1 < length (offsets g)") simp_all
  with r2 have "vwgt' = vwgt[idx := w]" "g' = prep_n_nonzeros g idx num" "gs' = gs + num"
    by (simp_all add: bindE_eq_Inr)
  with idx lt lt2 num show ?thesis
    by (simp add: row_width_def prep_n_nonzeros_def)
qed

lemma pass1_loop:
  assumes "foldE (pass1_elem cfg env mesh gim i2b) es (vwgt, g, gs) = Inr (vwgt', g', gs')"
    and "distinct (map (\<lambda>e. map_of gim (elem_id (elems mesh e))) es)"
    and "\<And>e i. e \<in> set es \<Longrightarrow> map_of gim (elem_id (elems mesh e)) = Some i \<Longrightarrow>
           i + 1 < length (offsets g) \<Longrightarrow> offsets g ! (i + 1) = 0"
  shows "gs' = gs + sum_list (map (row_width cfg env mesh gim i2b) es)
       \<and> sum_list (offsets g') = sum_list (offsets g) + sum_list (map (row_width cfg env mesh gim i2b) es)
       \<and> length (offsets g') = length (offsets g) \<and> vals g' = vals g"
  using assms
proof (induction es arbitrary: vwgt g gs)
  case Nil
  then show ?case by simp
next
  case (Cons x es)
  from Cons.prems(1) obtain st1 where s1: "pass1_elem cfg env mesh gim i2b x (vwgt, g, gs) = Inr st1"
    and r: "foldE (pass1_elem cfg env mesh gim i2b) es st1 = Inr (vwgt', g', gs')"
    by (auto split: sum.splits)
  obtain vwgt1 g1 gs1 where st1: "st1 = (vwgt1, g1, gs1)" by (cases st1)
  let ?w = "row_width cfg env mesh gim i2b x"
  from pass1_elem_step [OF s1 [unfolded st1]] obtain idx where
    idx: "map_of gim (elem_id (elems mesh x)) = Some idx"
    and lt: "idx + 1 < length (offsets g)"
    and o1: "offsets g1 = (offsets g)[idx + 1 := ?w]"
    and v1: "vals g1 = vals g" and g1: "gs1 = gs + ?w"
    by blast
  have z: "offsets g ! (idx + 1) = 0"
    using Cons.prems(3) [of x idx] idx lt by simp
  have sum1: "sum_list (offsets g1) = sum_list (offsets g) + ?w"
    using lt z by (simp add: o1 sum_list_update)
  have d: "distinct (map (\<lambda>e. map_of gim (elem_id (elems mesh e))) es)"
    using Cons.prems(2) by simp
  have zero: "offsets g1 ! (i + 1) = 0"
    if "e \<in> set es" "map_of gim (elem_id (elems mesh e)) = Some i" "i + 1 < length (offsets g1)" for e i
  proof -
    have "i \<noteq> idx" using Cons.prems(2) that(1,2) idx by (force simp: image_iff)
    moreover have "offsets g ! (i + 1) = 0"
      using Cons.prems(3) [of e i] that by (simp add: o1)
    ultimately show ?thesis by (simp add: o1)
  qed
  have l1: "length (offsets g1) = length (offsets g)" by (simp add: o1)
  have "gs' = gs1 + sum_list (map (row_width cfg env mesh gim i2b) es)
       \<and> sum_list (offsets g') =
           sum_list (offsets g1) + sum_list (map (row_width cfg env mesh gim i2b) es)
       \<and> length (offsets g') = length (offsets g1) \<and> vals g' = vals g1"
  proof (rule Cons.IH [OF r [unfolded st1] d])
    fix e i
    assume "e \<in> set es" "map_of gim (elem_id (elems mesh e)) = Some i"
      "i + 1 < length (offsets g1)"
    then show "offsets g1 ! (i + 1) = 0" by (rule zero)
  qed
  then show ?case by (simp add: sum1 g1 v1 l1 add.assoc)
qed

subsection \<open>The two passes counted against each other\<close>

lemma foldE_sim:
  assumes "foldE f xs s = Inr s'" and "foldE h xs t = Inr t'" and "R s t"
    and "\<And>x s s' t t'. f x s = Inr s' \<Longrightarrow> h x t = Inr t' \<Longrightarrow> R s t \<Longrightarrow> R s' t'"
  shows "R s' t'"
  using assms(1,2,3)
proof (induction xs arbitrary: s t)
  case Nil
  then show ?case by simp
next
  case (Cons x xs)
  from Cons.prems(1) obtain s1 where s1: "f x s = Inr s1" and r1: "foldE f xs s1 = Inr s'"
    by (auto split: sum.splits)
  from Cons.prems(2) obtain t1 where t1: "h x t = Inr t1" and r2: "foldE h xs t1 = Inr t'"
    by (auto split: sum.splits)
  from assms(4) [OF s1 t1 Cons.prems(3)] have "R s1 t1" .
  from Cons.IH [OF r1 r2 this] show ?case .
qed

lemma neighbor_ptr_line: "neighbor_ptr l e i = Inr np \<Longrightarrow> neighbor_ptr l' e i = Inr np"
  by (simp add: neighbor_ptr_def split: if_splits)

lemma child_counts:
  assumes "pass1_child cfg mesh gim elem ns child n = Inr n'"
    and "pass2_child cfg mesh gim elem idx ns child st = Inr st'"
    and "in_step n0 c0 n st"
  shows "in_step n0 c0 n' st'"
proof -
  obtain g c where st: "st = (g, c)" by (cases st)
  show ?thesis
  proof (cases "vm_count gim (elem_id (elems mesh child)) = 0")
    case True
    with assms st show ?thesis by (simp add: pass1_child_def pass2_child_def)
  next
    case False
    with assms(1) obtain np where np: "neighbor_ptr 335 (elems mesh child) ns = Inr np"
      and n': "n' = (if np = Some elem then n + 1 else n)"
      by (auto simp: pass1_child_def bindE_eq_Inr split: if_splits)
    have np2: "neighbor_ptr 434 (elems mesh child) ns = Inr np"
      by (rule neighbor_ptr_line [OF np])
    from assms(2) False st np2 have "snd st' = (if np = Some elem then c + 1 else c)"
      by (auto simp: pass2_child_def bindE_eq_Inr split: if_splits)
    with n' assms(3) st show ?thesis by (simp add: in_step_def)
  qed
qed

lemma neighbor_counts:
  assumes "pass1_neighbor cfg env mesh gim elem nb n = Inr n'"
    and "pass2_neighbor cfg env mesh gim elem idx nb st = Inr st'"
    and "in_step n0 c0 n st"
  shows "in_step n0 c0 n' st'"
proof (cases nb)
  case None
  with assms show ?thesis by (cases st) (simp add: pass1_neighbor_def pass2_neighbor_def)
next
  case (Some x)
  obtain g c where st: "st = (g, c)" by (cases st)
  show ?thesis
  proof (cases "active (elems mesh x)")
    case True
    show ?thesis
    proof (cases "vm_count gim (elem_id (elems mesh x)) = 0")
      case z: True
      with assms True Some st show ?thesis by (simp add: pass1_neighbor_def pass2_neighbor_def)
    next
      case nz: False
      with assms(1) True Some have "n' = n + 1" by (simp add: pass1_neighbor_def)
      moreover from assms(2) True Some nz st have "snd st' = c + 1"
        by (auto simp: pass2_neighbor_def bindE_eq_Inr)
      ultimately show ?thesis using assms(3) st by (simp add: in_step_def)
    qed
  next
    case False
    show ?thesis
    proof (cases "ENABLE_AMR cfg")
      case amr: True
      let ?ns = "which_neighbor_am_i env mesh x elem"
      from assms(1) False Some amr have
        1: "foldE (pass1_child cfg mesh gim elem ?ns) (active_family_tree env mesh x) n = Inr n'"
        by (simp add: pass1_neighbor_def bindE_eq_Inr Let_def)
      from assms(2) False Some amr st have
        2: "foldE (pass2_child cfg mesh gim elem idx ?ns) (active_family_tree env mesh x) st = Inr st'"
        by (simp add: pass2_neighbor_def bindE_eq_Inr Let_def)
      show ?thesis
        by (rule foldE_sim [where R = "in_step n0 c0", OF 1 2 assms(3)]) (rule child_counts)
    next
      case noamr: False
      with assms False Some st show ?thesis by (simp add: pass1_neighbor_def pass2_neighbor_def)
    qed
  qed
qed

lemma interior_count:
  assumes "foldE (pass2_interior mesh gim idx) xs st = Inr st'"
  shows "snd st' = snd st +
           length (filter (\<lambda>nb. query_elem_ptr mesh (elem_id (elems mesh nb)) = Some nb) xs)"
  using assms
proof (induction xs arbitrary: st)
  case Nil
  then show ?case by simp
next
  case (Cons x xs)
  from Cons.prems obtain st1 where s: "pass2_interior mesh gim idx x st = Inr st1"
    and r: "foldE (pass2_interior mesh gim idx) xs st1 = Inr st'"
    by (auto split: sum.splits)
  from s have "snd st1 = snd st +
      (if query_elem_ptr mesh (elem_id (elems mesh x)) = Some x then 1 else 0)"
    by (cases st) (auto simp: pass2_interior_def bindE_eq_Inr split: if_splits)
  with Cons.IH [OF r] show ?case by simp
qed

lemma boundary_count:
  assumes "foldE (pass2_boundary mesh gim idx) xs st = Inr st'"
  shows "snd st' = snd st + length xs"
  using assms
proof (induction xs arbitrary: st)
  case Nil
  then show ?case by simp
next
  case (Cons x xs)
  from Cons.prems obtain st1 where s: "pass2_boundary mesh gim idx x st = Inr st1"
    and r: "foldE (pass2_boundary mesh gim idx) xs st1 = Inr st'"
    by (auto split: sum.splits)
  from s have "snd st1 = snd st + 1"
    by (cases st) (auto simp: pass2_boundary_def bindE_eq_Inr)
  with Cons.IH [OF r] show ?case by simp
qed

lemma length_filter_split:
  "length xs = length (filter P xs) + length (filter (\<lambda>x. \<not> P x) xs)"
  by (induction xs) simp_all

text \<open>
  The entries that the second pass writes into the row of an element are the row width
  of the first pass less the interior neighbours that \<^verbatim>\<open>query_elem_ptr\<close> does not
  return: the face neighbours and the boundary neighbours are counted alike in both
  passes, the interior neighbours are not.
\<close>

lemma pass2_elem_count:
  assumes "pass1_num_neighbors cfg env mesh gim i2b elem = Inr n"
    and "pass2_elem cfg env mesh gim i2b elem g = Inr (g', c)"
  shows "n = c +
     (if has_interior_parent cfg (elems mesh elem)
      then length (filter (\<lambda>nb. query_elem_ptr mesh (elem_id (elems mesh nb)) \<noteq> Some nb)
                     (std_set (find_interior_neighbors env mesh elem)))
      else 0)"
proof -
  let ?int = "std_set (find_interior_neighbors env mesh elem)"
  from assms(1) obtain nf where
    f1: "foldE (pass1_neighbor cfg env mesh gim elem) (neighbors (elems mesh elem)) 0 = Inr nf"
    and n: "n = nf + (if has_interior_parent cfg (elems mesh elem) then length ?int else 0)
              + length (equal_range i2b elem)"
    by (auto simp: pass1_num_neighbors_def bindE_eq_Inr)
  from assms(2) obtain idx st1 st2 where
    f2: "foldE (pass2_neighbor cfg env mesh gim elem idx) (neighbors (elems mesh elem)) (g, 0) = Inr st1"
    and i2: "(if has_interior_parent cfg (elems mesh elem)
            then foldE (pass2_interior mesh gim idx) ?int st1
            else Inr st1) = Inr st2"
    and b2: "foldE (pass2_boundary mesh gim idx) (equal_range i2b elem) st2 = Inr (g', c)"
    by (auto simp: pass2_elem_def bindE_eq_Inr)
  have "in_step 0 0 0 (g, 0)" by (simp add: in_step_def)
  with f1 f2 have "in_step 0 0 nf st1"
    by (rule foldE_sim [where R = "in_step 0 0"]) (rule neighbor_counts)
  then have s1: "snd st1 = nf" by (simp add: in_step_def)
  have s2: "snd st2 = nf + (if has_interior_parent cfg (elems mesh elem)
       then length (filter (\<lambda>nb. query_elem_ptr mesh (elem_id (elems mesh nb)) = Some nb) ?int)
       else 0)"
  proof (cases "has_interior_parent cfg (elems mesh elem)")
    case True
    with i2 have "foldE (pass2_interior mesh gim idx) ?int st1 = Inr st2" by simp
    from interior_count [OF this] s1 True show ?thesis by simp
  next
    case False
    with i2 s1 show ?thesis by simp
  qed
  from boundary_count [OF b2] have c: "c = snd st2 + length (equal_range i2b elem)" by simp
  show ?thesis
    using length_filter_split [of ?int "\<lambda>nb. query_elem_ptr mesh (elem_id (elems mesh nb)) = Some nb"]
    by (simp add: n c s2)
qed


subsection \<open>The assignment\<close>

lemma assign_elem_step:
  assumes "assign_elem cfg gim part0 e mesh = Inr mesh'"
  shows "\<exists>i. map_of gim (elem_id (elems mesh e)) = Some i \<and> i < length part0
           \<and> mesh' = mesh\<lparr>elems := (elems mesh)
                (e := (elems mesh e)\<lparr>processor_id := cast_processor_id cfg (part0 ! i)\<rparr>)\<rparr>"
proof -
  from assms obtain i where i: "map_of gim (elem_id (elems mesh e)) = Some i"
    and r: "bindE (libmesh_assert cfg 539 (i < length part0)) (\<lambda>_.
     if \<not> i < length part0 then Inl (OutOfBounds 541)
     else
       Inr (mesh\<lparr>elems := (elems mesh)
              (e := (elems mesh e)
                 \<lparr>processor_id := cast_processor_id cfg (part0 ! i)\<rparr>)\<rparr>)) = Inr mesh'"
    unfolding assign_elem_def by (simp add: bindE_eq_Inr vm_index_eq_Inr) blast
  from r have lt: "i < length part0"
    by (cases "i < length part0") (simp_all add: bindE_eq_Inr)
  with r i show ?thesis by (simp add: bindE_eq_Inr)
qed

lemma assign_loop:
  assumes "foldE (assign_elem cfg gim part0) es mesh = Inr mesh'"
  shows "(\<forall>e \<in> set es. \<exists>i. map_of gim (elem_id (elems mesh e)) = Some i \<and> i < length part0)
       \<and> (\<forall>a. elems mesh' a =
             (if a \<in> set es
              then (elems mesh a)\<lparr>processor_id :=
                     cast_processor_id cfg (part0 ! the (map_of gim (elem_id (elems mesh a))))\<rparr>
              else elems mesh a))"
  using assms
proof (induction es arbitrary: mesh)
  case Nil
  then show ?case by simp
next
  case (Cons x es)
  from Cons.prems obtain mesh1 where s: "assign_elem cfg gim part0 x mesh = Inr mesh1"
    and r: "foldE (assign_elem cfg gim part0) es mesh1 = Inr mesh'"
    by (auto split: sum.splits)
  from assign_elem_step [OF s] obtain i where i: "map_of gim (elem_id (elems mesh x)) = Some i"
    and lt: "i < length part0"
    and m1: "mesh1 = mesh\<lparr>elems := (elems mesh)
                (x := (elems mesh x)\<lparr>processor_id := cast_processor_id cfg (part0 ! i)\<rparr>)\<rparr>"
    by blast
  have ids: "elem_id (elems mesh1 a) = elem_id (elems mesh a)" for a
    by (simp add: m1)
  from Cons.IH [OF r] have
    ih1: "\<forall>e \<in> set es. \<exists>i. map_of gim (elem_id (elems mesh e)) = Some i \<and> i < length part0"
    and ih2: "\<And>a. elems mesh' a =
             (if a \<in> set es
              then (elems mesh1 a)\<lparr>processor_id :=
                     cast_processor_id cfg (part0 ! the (map_of gim (elem_id (elems mesh a))))\<rparr>
              else elems mesh1 a)"
    by (simp_all add: ids)
  have "elems mesh' a =
             (if a \<in> set (x # es)
              then (elems mesh a)\<lparr>processor_id :=
                     cast_processor_id cfg (part0 ! the (map_of gim (elem_id (elems mesh a))))\<rparr>
              else elems mesh a)" for a
    using ih2 [of a] i by (simp add: m1)
  with ih1 i lt show ?case by simp
qed

lemma cast_processor_id_le: "cast_processor_id cfg x \<le> x"
  by (simp add: cast_processor_id_def)

lemma cast_idx_t_small: "x < 2 ^ (idx_t_bits cfg - 1) \<Longrightarrow> cast_idx_t cfg x = int x"
proof -
  assume a: "x < 2 ^ (idx_t_bits cfg - 1)"
  have "(2 :: nat) ^ (idx_t_bits cfg - 1) \<le> 2 ^ idx_t_bits cfg"
    by (rule power_increasing) simp_all
  with a have "x < 2 ^ idx_t_bits cfg" by (rule less_le_trans)
  then have "int x < 2 ^ idx_t_bits cfg"
    by (metis of_nat_less_iff of_nat_numeral of_nat_power)
  then have m: "int x mod 2 ^ idx_t_bits cfg = int x" by simp
  from a have "int x < 2 ^ (idx_t_bits cfg - 1)"
    by (metis of_nat_less_iff of_nat_numeral of_nat_power)
  with m show ?thesis by (simp add: cast_idx_t_def)
qed

text \<open>
  What the engine was called with, when the block of rank 0 has run to its end: the
  graph that was built, and the entry point that \<open>k\<close> selects.
\<close>

lemma metis_block_engine:
  assumes "metis_block cfg env mesh gim i2b es k part0 = Inr (c, part1)"
  shows "\<exists>vwgt g gs.
           build_graph cfg env mesh gim i2b es = Inr (vwgt, g, gs)
         \<and> (c, part1) =
             (if k \<le> 8
              then (PartGraphRecursive, METIS_PartGraphRecursive env
                      \<lparr>nvtxs = cast_idx_t cfg (length es), ncon = 1, xadj = offsets g,
                       adjncy = vals g, vertex_weights = vwgt, nparts = cast_idx_t cfg k,
                       part_in = part0\<rparr>)
              else (PartGraphKway, METIS_PartGraphKway env
                      \<lparr>nvtxs = cast_idx_t cfg (length es), ncon = 1, xadj = offsets g,
                       adjncy = vals g, vertex_weights = vwgt, nparts = cast_idx_t cfg k,
                       part_in = part0\<rparr>))"
proof (cases "build_graph cfg env mesh gim i2b es")
  case (Inl e)
  with assms show ?thesis by (simp add: metis_block_def)
next
  case (Inr st)
  obtain vwgt g gs where st: "st = (vwgt, g, gs)" by (cases st)
  from assms Inr st show ?thesis
    by (simp add: metis_block_def bindE_eq_Inr Let_def split: if_splits)
qed

lemma metis_block_values:
  assumes "metis_block cfg env mesh gim i2b es k part0 = Inr (c, part1)"
    and "\<And>a. 0 < nparts a \<Longrightarrow> \<forall>x \<in> set (METIS_PartGraphRecursive env a). int x < nparts a"
    and "\<And>a. 0 < nparts a \<Longrightarrow> \<forall>x \<in> set (METIS_PartGraphKway env a). int x < nparts a"
    and "1 \<le> k" and "k < 2 ^ (idx_t_bits cfg - 1)"
  shows "\<forall>x \<in> set part1. x < k"
proof -
  from metis_block_engine [OF assms(1)] obtain vwgt and g :: CSR where
    e: "(c, part1) =
             (if k \<le> 8
              then (PartGraphRecursive, METIS_PartGraphRecursive env
                      \<lparr>nvtxs = cast_idx_t cfg (length es), ncon = 1, xadj = offsets g,
                       adjncy = vals g, vertex_weights = vwgt, nparts = cast_idx_t cfg k,
                       part_in = part0\<rparr>)
              else (PartGraphKway, METIS_PartGraphKway env
                      \<lparr>nvtxs = cast_idx_t cfg (length es), ncon = 1, xadj = offsets g,
                       adjncy = vals g, vertex_weights = vwgt, nparts = cast_idx_t cfg k,
                       part_in = part0\<rparr>))"
    by blast
  let ?args = "\<lparr>nvtxs = cast_idx_t cfg (length es), ncon = 1, xadj = offsets g,
                 adjncy = vals g, vertex_weights = vwgt, nparts = cast_idx_t cfg k,
                 part_in = part0\<rparr>"
  have n: "nparts ?args = int k" using assms(5) by (simp add: cast_idx_t_small)
  with assms(4) have pos: "0 < nparts ?args" by simp
  from assms(2) [OF pos] assms(3) [OF pos] n
  have "\<forall>x \<in> set (METIS_PartGraphRecursive env ?args). x < k"
    and "\<forall>x \<in> set (METIS_PartGraphKway env ?args). x < k"
    by simp_all
  with e show ?thesis by (simp split: if_splits)
qed

lemma partition_vector_values:
  assumes "partition_vector cfg env mesh gim es k = (cs, Inr part2)"
    and "\<And>a. 0 < nparts a \<Longrightarrow> \<forall>x \<in> set (METIS_PartGraphRecursive env a). int x < nparts a"
    and "\<And>a. 0 < nparts a \<Longrightarrow> \<forall>x \<in> set (METIS_PartGraphKway env a). int x < nparts a"
    and "\<forall>x \<in> set (root_part env). x < k"
    and "1 \<le> k" and "k < 2 ^ (idx_t_bits cfg - 1)"
  shows "(\<forall>x \<in> set part2. x < k) \<and> Broadcast \<in> set cs"
proof (cases "mesh_processor_id mesh = 0")
  case True
  with assms(1) obtain c part1 where
    mb: "metis_block cfg env mesh gim (build_interior_to_boundary_map cfg env mesh es) es k
           (replicate (length es) 0) = Inr (c, part1)"
    and e: "cs = [c, Broadcast]" "part2 = part1"
    by (auto simp: partition_vector_def Let_def broadcast_def split: sum.splits)
  from metis_block_values [OF mb assms(2,3,5,6)] e show ?thesis by simp
next
  case False
  with assms(1,4) show ?thesis
    by (auto simp: partition_vector_def Let_def broadcast_def)
qed


lemma build_graph_vals_size:
  assumes "build_graph cfg env mesh gim i2b elem_range = Inr (vwgt, csr_graph, graph_size)"
    and "distinct (map (\<lambda>elem. map_of gim (elem_id (elems mesh elem))) elem_range)"
  shows "graph_size = sum_list (map (row_width cfg env mesh gim i2b) elem_range)
       \<and> length (vals csr_graph) = max graph_size 1"
proof -
  let ?g0 = "\<lparr>offsets = replicate (length elem_range + 1) 0, vals = []\<rparr>"
  from assms(1) obtain st where
    p1: "foldE (pass1_elem cfg env mesh gim i2b) elem_range
           (replicate (length elem_range) 0, ?g0, 0) = Inr st"
    and rest: "(case st of (vwgt, csr_graph, graph_size) \<Rightarrow>
          bindE (foldE (\<lambda>elem g.
                          bindE (pass2_elem cfg env mesh gim i2b elem g) (\<lambda>r. Inr (fst r)))
                   elem_range (prepare_for_use csr_graph)) (\<lambda>g.
            Inr (vwgt, g, graph_size))) = Inr (vwgt, csr_graph, graph_size)"
    unfolding build_graph_def Let_def by (simp only: bindE_eq_Inr) blast
  obtain vwgt1 g1 gs1 where st: "st = (vwgt1, g1, gs1)" by (cases st)
  from rest st have gs: "gs1 = graph_size"
    and p2: "foldE (\<lambda>elem g. bindE (pass2_elem cfg env mesh gim i2b elem g) (\<lambda>r. Inr (fst r)))
                   elem_range (prepare_for_use g1) = Inr csr_graph"
    by (auto simp: bindE_eq_Inr)
  have zero: "offsets ?g0 ! (i + 1) = 0" if "i + 1 < length (offsets ?g0)" for i
    using that by simp
  have "gs1 = 0 + sum_list (map (row_width cfg env mesh gim i2b) elem_range)
       \<and> sum_list (offsets g1) =
           sum_list (offsets ?g0) + sum_list (map (row_width cfg env mesh gim i2b) elem_range)
       \<and> length (offsets g1) = length (offsets ?g0) \<and> vals g1 = vals ?g0"
  proof (rule pass1_loop [OF p1 [unfolded st] assms(2)])
    fix e i
    assume "i + 1 < length (offsets ?g0)"
    then show "offsets ?g0 ! (i + 1) = 0" by (rule zero)
  qed
  then have w: "gs1 = sum_list (map (row_width cfg env mesh gim i2b) elem_range)"
    and s: "sum_list (offsets g1) = sum_list (map (row_width cfg env mesh gim i2b) elem_range)"
    and l: "length (offsets g1) = length elem_range + 1"
    by simp_all
  from l have ne: "offsets g1 \<noteq> []" by auto
  from pass2_loop_shape [OF p2]
  have "length (vals csr_graph) = length (vals (prepare_for_use g1))" by simp
  also have "\<dots> = max (sum_list (offsets g1)) 1"
    by (rule length_vals_prepare_for_use [OF ne])
  finally show ?thesis using w s gs by simp
qed

lemma partition_range_post:
  fixes env :: Env and p :: Process and mesh mesh1 :: MeshBase
  defines "mesh1 \<equiv> snd (gather_if_distributed env p mesh)"
  assumes "HAVE_METIS cfg" and "elem_range \<noteq> []" and "1 \<le> n_pieces"
    and "\<And>a. 0 < nparts a \<Longrightarrow> \<forall>x \<in> set (METIS_PartGraphRecursive env a). int x < nparts a"
    and "\<And>a. 0 < nparts a \<Longrightarrow> \<forall>x \<in> set (METIS_PartGraphKway env a). int x < nparts a"
    and "\<forall>x \<in> set (root_part env). x < n_pieces"
    and "partition_range cfg env p mesh elem_range n_pieces = (p', Inr mesh')"
    and "n_pieces < 2 ^ (idx_t_bits cfg - 1)"
  shows "(\<forall>elem \<in> set elem_range. processor_id (elems mesh' elem) < n_pieces)
       \<and> (n_pieces \<noteq> 1 \<longrightarrow>
            (\<exists>global_index_map cs part2.
               build_global_index_map cfg (map (\<lambda>elem. elem_id (elems mesh1 elem)) elem_range)
                 (find_global_indices env mesh1 elem_range) = Inr global_index_map
             \<and> partition_vector cfg env mesh1 global_index_map elem_range n_pieces = (cs, Inr part2)
             \<and> Broadcast \<in> set cs
             \<and> (\<forall>elem \<in> set elem_range.
                  \<exists>i. map_of global_index_map (elem_id (elems mesh1 elem)) = Some i
                     \<and> i < length part2 \<and> part2 ! i < n_pieces
                     \<and> elems mesh' elem =
                         (elems mesh1 elem)\<lparr>processor_id := cast_processor_id cfg (part2 ! i)\<rparr>)))"
proof (cases "n_pieces = 1")
  case True
  with assms(3,8) have "mesh' = single_partition_range mesh elem_range"
    by (simp add: partition_range_def)
  with True show ?thesis by (simp add: elems_single_partition_range)
next
  case False
  obtain p1 where g: "gather_if_distributed env p mesh = (p1, mesh1)"
    unfolding mesh1_def by (cases "gather_if_distributed env p mesh") simp
  from False assms(2,3,4,8) g
  have m: "metis_partition_range cfg env p1 mesh1 elem_range n_pieces = (p', Inr mesh')"
    by (simp add: partition_range_def libmesh_assert_def)
  let ?b = "build_global_index_map cfg (map (\<lambda>elem. elem_id (elems mesh1 elem)) elem_range)
                 (find_global_indices env mesh1 elem_range)"
  from m obtain gim where b: "?b = Inr gim"
    by (cases ?b) (simp_all add: metis_partition_range_def Let_def)
  obtain cs r where pv: "partition_vector cfg env mesh1 gim elem_range n_pieces = (cs, r)"
    by (cases "partition_vector cfg env mesh1 gim elem_range n_pieces")
  from m b pv obtain part2 where r: "r = Inr part2"
    by (cases r) (simp_all add: metis_partition_range_def Let_def)
  from m b pv r have a: "foldE (assign_elem cfg gim part2) elem_range mesh1 = Inr mesh'"
    by (simp add: metis_partition_range_def Let_def)
  from partition_vector_values [OF pv [unfolded r] assms(5,6,7,4,9)]
  have vals: "\<forall>x \<in> set part2. x < n_pieces" and bc: "Broadcast \<in> set cs" by simp_all
  from assign_loop [OF a] have
    look: "\<forall>e \<in> set elem_range. \<exists>i. map_of gim (elem_id (elems mesh1 e)) = Some i \<and> i < length part2"
    and el: "\<And>a. elems mesh' a =
             (if a \<in> set elem_range
              then (elems mesh1 a)\<lparr>processor_id :=
                     cast_processor_id cfg (part2 ! the (map_of gim (elem_id (elems mesh1 a))))\<rparr>
              else elems mesh1 a)"
    by simp_all
  have each: "\<exists>i. map_of gim (elem_id (elems mesh1 elem)) = Some i
                     \<and> i < length part2 \<and> part2 ! i < n_pieces
                     \<and> elems mesh' elem =
                         (elems mesh1 elem)\<lparr>processor_id := cast_processor_id cfg (part2 ! i)\<rparr>"
    if "elem \<in> set elem_range" for elem
  proof -
    from look that obtain i where i: "map_of gim (elem_id (elems mesh1 elem)) = Some i"
      "i < length part2" by blast
    with vals have "part2 ! i < n_pieces" by simp
    with i el [of elem] that show ?thesis by simp
  qed
  have lt: "processor_id (elems mesh' elem) < n_pieces" if "elem \<in> set elem_range" for elem
  proof -
    from each [OF that] obtain i where "part2 ! i < n_pieces"
      "elems mesh' elem = (elems mesh1 elem)\<lparr>processor_id := cast_processor_id cfg (part2 ! i)\<rparr>"
      by blast
    then show ?thesis
      using cast_processor_id_le [of cfg "part2 ! i"] by simp
  qed
  from b pv [unfolded r] bc each lt show ?thesis by blast
qed

text \<open>
  A call that has logged a call of the engine has built the index map on the mesh left
  by the gather, has run the block of rank 0 to its end, and returns what the assignment
  loop makes of the vector that the block left.
\<close>

lemma partition_range_engine:
  fixes env :: Env and p p' :: Process and mesh mesh1 :: MeshBase
  defines "mesh1 \<equiv> snd (gather_if_distributed env p mesh)"
  assumes "partition_range cfg env p mesh elem_range n_pieces = (p', r)"
    and "PartGraphRecursive \<in> set (new_calls p p') \<or> PartGraphKway \<in> set (new_calls p p')"
  shows "\<exists>g0 gim c part1.
           (g0 = [] \<or> g0 = [Allgather])
         \<and> new_calls p p' = g0 @ [FindGlobalIndices, c, Broadcast]
         \<and> build_global_index_map cfg (map (\<lambda>elem. elem_id (elems mesh1 elem)) elem_range)
              (find_global_indices env mesh1 elem_range) = Inr gim
         \<and> metis_block cfg env mesh1 gim (build_interior_to_boundary_map cfg env mesh1 elem_range)
              elem_range n_pieces (replicate (length elem_range) 0) = Inr (c, part1)
         \<and> r = foldE (assign_elem cfg gim part1) elem_range mesh1"
proof -
  obtain p1 where g: "gather_if_distributed env p mesh = (p1, mesh1)"
    unfolding mesh1_def by (cases "gather_if_distributed env p mesh") simp
  obtain g0 where g0: "calls p1 = calls p @ g0" "g0 = [] \<or> g0 = [Allgather]"
    using gather_if_distributed_out(2) [of env p mesh] g by (cases "is_serial mesh") auto
  have early: "\<not> (elem_range = [] \<or> n_pieces = 1 \<or> libmesh_assert cfg 84 (0 < n_pieces) \<noteq> Inr ())"
  proof
    assume "elem_range = [] \<or> n_pieces = 1 \<or> libmesh_assert cfg 84 (0 < n_pieces) \<noteq> Inr ()"
    with assms(2) have "p' = p"
      by (cases "libmesh_assert cfg 84 (0 < n_pieces)")
        (auto simp: partition_range_def split: if_splits)
    with assms(3) show False by (simp add: new_calls_def)
  qed
  have metis: "HAVE_METIS cfg"
  proof (rule ccontr)
    assume "\<not> HAVE_METIS cfg"
    with early assms(2) g have "calls p' = calls (libmesh_do_once no_metis_notice p1) @ [SFCPartition]"
      by (auto simp: partition_range_def Let_def)
    then have "new_calls p p' = g0 @ [SFCPartition]"
      using g0(1) by (simp add: new_calls_def libmesh_do_once_def)
    with assms(3) g0(2) show False by auto
  qed
  from early metis assms(2) g
  have m: "metis_partition_range cfg env p1 mesh1 elem_range n_pieces = (p', r)"
    by (auto simp: partition_range_def)
  let ?b = "build_global_index_map cfg (map (\<lambda>elem. elem_id (elems mesh1 elem)) elem_range)
              (find_global_indices env mesh1 elem_range)"
  obtain gim where b: "?b = Inr gim"
  proof (cases ?b)
    case (Inl e)
    with m have "calls p' = calls p1 @ [FindGlobalIndices]"
      by (auto simp: metis_partition_range_def Let_def)
    then have "new_calls p p' = g0 @ [FindGlobalIndices]"
      using g0(1) by (simp add: new_calls_def)
    with assms(3) g0(2) show ?thesis by auto
  next
    case (Inr gim)
    then show ?thesis by (rule that)
  qed
  obtain cs rv where pv: "partition_vector cfg env mesh1 gim elem_range n_pieces = (cs, rv)"
    by (cases "partition_vector cfg env mesh1 gim elem_range n_pieces")
  from m b pv have c': "calls p' = calls p1 @ FindGlobalIndices # cs"
    by (cases rv) (auto simp: metis_partition_range_def Let_def)
  then have nc: "new_calls p p' = g0 @ FindGlobalIndices # cs"
    using g0(1) by (simp add: new_calls_def)
  with assms(3) g0(2) have tag: "PartGraphRecursive \<in> set cs \<or> PartGraphKway \<in> set cs"
    by auto
  let ?i2b = "build_interior_to_boundary_map cfg env mesh1 elem_range"
  let ?mb = "metis_block cfg env mesh1 gim ?i2b elem_range n_pieces (replicate (length elem_range) 0)"
  have rank: "mesh_processor_id mesh1 = 0"
  proof (rule ccontr)
    assume "mesh_processor_id mesh1 \<noteq> 0"
    with pv have "cs = [Broadcast]" by (auto simp: partition_vector_def Let_def)
    with tag show False by simp
  qed
  obtain c part1 where mb: "?mb = Inr (c, part1)"
  proof (cases ?mb)
    case (Inl e)
    with pv rank have "cs = []" by (auto simp: partition_vector_def Let_def)
    with tag show ?thesis by simp
  next
    case (Inr x)
    then show ?thesis using that by (cases x) simp
  qed
  from pv rank mb have cs: "cs = [c, Broadcast]" and rv: "rv = Inr part1"
    by (auto simp: partition_vector_def Let_def broadcast_def)
  from m b pv rv have "r = foldE (assign_elem cfg gim part1) elem_range mesh1"
    by (auto simp: metis_partition_range_def Let_def)
  with g0(2) nc cs b mb show ?thesis by blast
qed

subsection \<open>The call returns normally on a mesh that the graph builder can work on\<close>

lemma vm_count_keys: "keys_are gim ids \<Longrightarrow> vm_count gim k = 0 \<longleftrightarrow> k \<notin> set ids"
  by (simp add: keys_are_def vm_count_def)

lemma foldE_total:
  assumes "\<And>x s. x \<in> set xs \<Longrightarrow> \<exists>s'. f x s = Inr s'"
  shows "\<exists>s'. foldE f xs s = Inr s'"
  using assms
proof (induction xs arbitrary: s)
  case Nil
  show ?case by simp
next
  case (Cons x xs)
  from Cons.prems [of x s] obtain s1 where s1: "f x s = Inr s1" by auto
  from Cons.IH [of s1] Cons.prems obtain s' where "foldE f xs s1 = Inr s'" by auto
  with s1 show ?case by simp
qed

lemma pass1_child_total:
  assumes "keys_are gim ids" and "child_ok cfg mesh ids elem ns child"
  shows "\<exists>n'. pass1_child cfg mesh gim elem ns child n = Inr n'"
proof (cases "elem_id (elems mesh child) \<in> set ids")
  case False
  with vm_count_keys [OF assms(1)] show ?thesis by (simp add: pass1_child_def)
next
  case True
  with assms(2) have lt: "ns < length (neighbors (elems mesh child))"
    and act: "neighbors (elems mesh child) ! ns = Some elem \<Longrightarrow> NDEBUG cfg \<or> active (elems mesh child)"
    by (simp_all add: child_ok_def)
  from True vm_count_keys [OF assms(1)] have nz: "vm_count gim (elem_id (elems mesh child)) \<noteq> 0"
    by simp
  show ?thesis
  proof (cases "neighbors (elems mesh child) ! ns = Some elem")
    case s: True
    with act have "NDEBUG cfg \<or> active (elems mesh child)" by simp
    with nz lt s show ?thesis
      by (simp add: pass1_child_def neighbor_ptr_def libmesh_assert_def)
  next
    case s: False
    with nz lt show ?thesis by (simp add: pass1_child_def neighbor_ptr_def)
  qed
qed

lemma pass1_neighbor_total:
  assumes "keys_are gim ids" and "neighbor_ok cfg env mesh ids elem nb"
  shows "\<exists>n'. pass1_neighbor cfg env mesh gim elem nb n = Inr n'"
proof (cases nb)
  case None
  then show ?thesis by (simp add: pass1_neighbor_def)
next
  case (Some x)
  show ?thesis
  proof (cases "active (elems mesh x) \<or> \<not> ENABLE_AMR cfg")
    case True
    with Some show ?thesis by (auto simp: pass1_neighbor_def)
  next
    case False
    let ?ns = "which_neighbor_am_i env mesh x elem"
    from False Some assms(2) have a: "NDEBUG cfg \<or> ?ns < length (neighbors (elems mesh x))"
      and c: "list_all (child_ok cfg mesh ids elem ?ns) (active_family_tree env mesh x)"
      by (simp_all add: neighbor_ok_def)
    have "\<exists>n'. foldE (pass1_child cfg mesh gim elem ?ns) (active_family_tree env mesh x) n = Inr n'"
    proof (rule foldE_total)
      fix child s assume "child \<in> set (active_family_tree env mesh x)"
      with c have "child_ok cfg mesh ids elem ?ns child" by (simp add: list_all_iff)
      from pass1_child_total [OF assms(1) this]
      show "\<exists>s'. pass1_child cfg mesh gim elem ?ns child s = Inr s'" .
    qed
    with False Some a show ?thesis
      by (auto simp: pass1_neighbor_def Let_def libmesh_assert_def)
  qed
qed

lemma pass1_num_neighbors_total:
  assumes "keys_are gim ids" and "elem_ok cfg env mesh ids elem"
  shows "\<exists>n. pass1_num_neighbors cfg env mesh gim i2b elem = Inr n"
proof -
  have "\<exists>n. foldE (pass1_neighbor cfg env mesh gim elem) (neighbors (elems mesh elem)) 0 = Inr n"
  proof (rule foldE_total)
    fix nb s assume "nb \<in> set (neighbors (elems mesh elem))"
    with assms(2) have "neighbor_ok cfg env mesh ids elem nb"
      by (simp add: elem_ok_def list_all_iff)
    from pass1_neighbor_total [OF assms(1) this]
    show "\<exists>s'. pass1_neighbor cfg env mesh gim elem nb s = Inr s'" .
  qed
  then show ?thesis by (auto simp: pass1_num_neighbors_def)
qed

lemma elem_weight_total:
  assumes "elem_ok cfg env mesh ids elem"
  shows "\<exists>w. elem_weight env (elems mesh elem) = Inr w"
  using assms by (auto simp: elem_ok_def elem_weight_def split: option.splits)

lemma pass1_elem_total:
  assumes "keys_are gim ids" and "elem_ok cfg env mesh ids elem"
    and "map_of gim (elem_id (elems mesh elem)) = Some idx"
    and "idx < length vwgt" and "idx + 1 < length (offsets g)" and "offsets g ! (idx + 1) = 0"
  shows "\<exists>st'. pass1_elem cfg env mesh gim i2b elem (vwgt, g, gs) = Inr st'"
proof -
  from elem_weight_total [OF assms(2)] obtain w where w: "elem_weight env (elems mesh elem) = Inr w"
    by blast
  from pass1_num_neighbors_total [OF assms(1,2)] obtain n
    where n: "pass1_num_neighbors cfg env mesh gim i2b elem = Inr n" by blast
  from assms(3-6) w n show ?thesis
    by (simp add: pass1_elem_def vm_index_def)
qed


lemma pass1_loop_total:
  assumes "keys_are gim ids" and "\<forall>e \<in> set es. elem_ok cfg env mesh ids e"
    and "distinct (map (\<lambda>e. map_of gim (elem_id (elems mesh e))) es)"
    and "\<And>e. e \<in> set es \<Longrightarrow> \<exists>i. map_of gim (elem_id (elems mesh e)) = Some i \<and> i < length vwgt
            \<and> i + 1 < length (offsets g) \<and> offsets g ! (i + 1) = 0"
  shows "\<exists>st'. foldE (pass1_elem cfg env mesh gim i2b) es (vwgt, g, gs) = Inr st'"
  using assms(2-)
proof (induction es arbitrary: vwgt g gs)
  case Nil
  show ?case by simp
next
  case (Cons x es)
  from Cons.prems(3) [of x] obtain ix where ix: "map_of gim (elem_id (elems mesh x)) = Some ix"
    "ix < length vwgt" "ix + 1 < length (offsets g)" "offsets g ! (ix + 1) = 0" by auto
  from Cons.prems(1) have okx: "elem_ok cfg env mesh ids x" by simp
  from pass1_elem_total [OF assms(1) okx ix] obtain st1
    where s1: "pass1_elem cfg env mesh gim i2b x (vwgt, g, gs) = Inr st1" by blast
  obtain vwgt1 g1 gs1 where st1: "st1 = (vwgt1, g1, gs1)" by (cases st1)
  from pass1_elem_step [OF s1 [unfolded st1]] ix(1)
  have l1: "length vwgt1 = length vwgt"
    and o1: "offsets g1 = (offsets g)[ix + 1 := row_width cfg env mesh gim i2b x]"
    by auto
  have "\<exists>st'. foldE (pass1_elem cfg env mesh gim i2b) es (vwgt1, g1, gs1) = Inr st'"
  proof (rule Cons.IH)
    show "\<forall>e \<in> set es. elem_ok cfg env mesh ids e" using Cons.prems(1) by simp
    show "distinct (map (\<lambda>e. map_of gim (elem_id (elems mesh e))) es)" using Cons.prems(2) by simp
    fix e assume e: "e \<in> set es"
    with Cons.prems(3) [of e] obtain i where i: "map_of gim (elem_id (elems mesh e)) = Some i"
      "i < length vwgt" "i + 1 < length (offsets g)" "offsets g ! (i + 1) = 0" by auto
    have "i \<noteq> ix" using Cons.prems(2) e i(1) ix(1) by (force simp: image_iff)
    with i show "\<exists>i. map_of gim (elem_id (elems mesh e)) = Some i \<and> i < length vwgt1
            \<and> i + 1 < length (offsets g1) \<and> offsets g1 ! (i + 1) = 0"
      by (simp add: l1 o1)
  qed
  with s1 st1 show ?case by simp
qed

lemma pass1_loop_offsets:
  assumes "foldE (pass1_elem cfg env mesh gim i2b) es (vwgt, g, gs) = Inr (vwgt', g', gs')"
    and "distinct (map (\<lambda>e. map_of gim (elem_id (elems mesh e))) es)"
  shows "(\<forall>e \<in> set es. \<forall>i. map_of gim (elem_id (elems mesh e)) = Some i \<longrightarrow>
            offsets g' ! (i + 1) = row_width cfg env mesh gim i2b e)
       \<and> (\<forall>j. (\<forall>e \<in> set es. map_of gim (elem_id (elems mesh e)) \<noteq> Some (j - 1)) \<longrightarrow>
            offsets g' ! j = offsets g ! j)"
  using assms
proof (induction es arbitrary: vwgt g gs)
  case Nil
  then show ?case by simp
next
  case (Cons x es)
  from Cons.prems(1) obtain st1 where s1: "pass1_elem cfg env mesh gim i2b x (vwgt, g, gs) = Inr st1"
    and r: "foldE (pass1_elem cfg env mesh gim i2b) es st1 = Inr (vwgt', g', gs')"
    by (auto split: sum.splits)
  obtain vwgt1 g1 gs1 where st1: "st1 = (vwgt1, g1, gs1)" by (cases st1)
  let ?w = "row_width cfg env mesh gim i2b x"
  from pass1_elem_step [OF s1 [unfolded st1]] obtain ix where
    ix: "map_of gim (elem_id (elems mesh x)) = Some ix" "ix + 1 < length (offsets g)"
    and o1: "offsets g1 = (offsets g)[ix + 1 := ?w]"
    by blast
  have d: "distinct (map (\<lambda>e. map_of gim (elem_id (elems mesh e))) es)"
    using Cons.prems(2) by simp
  from Cons.IH [OF r [unfolded st1] d] have
    ih1: "\<And>e i. e \<in> set es \<Longrightarrow> map_of gim (elem_id (elems mesh e)) = Some i \<Longrightarrow>
            offsets g' ! (i + 1) = row_width cfg env mesh gim i2b e"
    and ih2: "\<And>j. (\<forall>e \<in> set es. map_of gim (elem_id (elems mesh e)) \<noteq> Some (j - 1)) \<Longrightarrow>
            offsets g' ! j = offsets g1 ! j"
    by blast+
  have nx: "\<forall>e \<in> set es. map_of gim (elem_id (elems mesh e)) \<noteq> Some ix"
    using Cons.prems(2) ix(1) by (force simp: image_iff)
  have x: "offsets g' ! (ix + 1) = ?w"
    using ih2 [of "ix + 1"] nx ix(2) by (simp add: o1)
  have one: "offsets g' ! (i + 1) = row_width cfg env mesh gim i2b e"
    if "e \<in> set (x # es)" "map_of gim (elem_id (elems mesh e)) = Some i" for e i
  proof (cases "e = x")
    case True
    with that ix(1) x show ?thesis by simp
  next
    case False
    with that ih1 [of e i] show ?thesis by simp
  qed
  have two: "offsets g' ! j = offsets g ! j"
    if "\<forall>e \<in> set (x # es). map_of gim (elem_id (elems mesh e)) \<noteq> Some (j - 1)" for j
  proof -
    from that ix(1) have "j \<noteq> ix + 1" by auto
    moreover from that have "offsets g' ! j = offsets g1 ! j" by (intro ih2) simp
    ultimately show ?thesis by (simp add: o1)
  qed
  from one two show ?case by blast
qed

lemma nth_partial_sum:
  "j < length xs \<Longrightarrow> partial_sum a xs ! j = a + sum_list (take (Suc j) xs)"
proof (induction xs arbitrary: a j)
  case Nil
  then show ?case by simp
next
  case (Cons x xs)
  show ?case
  proof (cases j)
    case 0
    then show ?thesis by simp
  next
    case (Suc k)
    with Cons.prems have "k < length xs" by simp
    from Cons.IH [OF this, of "a + x"] Suc show ?thesis by (simp add: add.assoc)
  qed
qed

lemma sum_list_take_le: "sum_list (take k xs) \<le> sum_list (xs :: nat list)"
proof -
  have "sum_list xs = sum_list (take k xs) + sum_list (drop k xs)"
    by (metis append_take_drop_id sum_list_append)
  then show ?thesis by simp
qed

lemma row_capacity:
  assumes "i + 1 < length (offsets g)"
  shows "offsets (prepare_for_use g) ! i + offsets g ! (i + 1) \<le> length (vals (prepare_for_use g))"
proof -
  from assms have ne: "offsets g \<noteq> []" and i: "i < length (offsets g)" by auto
  have "offsets (prepare_for_use g) ! i = sum_list (take (Suc i) (offsets g))"
    using nth_partial_sum [OF i, of 0] by (simp add: prepare_for_use_def Let_def)
  moreover have "sum_list (take (Suc (Suc i)) (offsets g)) =
      sum_list (take (Suc i) (offsets g)) + offsets g ! (i + 1)"
    using assms by (simp add: take_Suc_conv_app_nth [of "Suc i"])
  moreover have "sum_list (take (Suc (Suc i)) (offsets g)) \<le> sum_list (offsets g)"
    by (rule sum_list_take_le)
  moreover have "length (vals (prepare_for_use g)) = max (sum_list (offsets g)) 1"
    by (rule length_vals_prepare_for_use [OF ne])
  ultimately show ?thesis by simp
qed

lemma row_in_offsets:
  "length (offsets (prepare_for_use g)) = length (offsets g)"
  by (simp add: prepare_for_use_def Let_def)


lemma csr_set_total:
  assumes "row < length (offsets g)" and "offsets g ! row + nz < length (vals g)"
  shows "\<exists>g'. csr_set l g row nz v = Inr g' \<and> offsets g' = offsets g
           \<and> length (vals g') = length (vals g)"
  using assms by (simp add: csr_set_def)

lemma vm_index_total: "vm_count gim k \<noteq> 0 \<Longrightarrow> \<exists>v. vm_index l gim k = Inr v"
  by (auto simp: vm_count_def vm_index_def split: if_splits)

lemma libmesh_assert_line: "libmesh_assert cfg l c = Inr u \<Longrightarrow> libmesh_assert cfg l' c = Inr u"
  by (simp add: libmesh_assert_def split: if_splits)

lemma pass1_child_mono:
  "pass1_child cfg mesh gim elem ns child n = Inr n1 \<Longrightarrow> n \<le> n1"
  by (auto simp: pass1_child_def bindE_eq_Inr split: if_splits)

lemma pass1_children_mono:
  assumes "foldE (pass1_child cfg mesh gim elem ns) xs n = Inr n'"
  shows "n \<le> n'"
proof (rule foldE_preserves [where P = "\<lambda>m. n \<le> m", OF assms])
  show "n \<le> n" by simp
next
  fix x t t' assume "pass1_child cfg mesh gim elem ns x t = Inr t'" "n \<le> t"
  with pass1_child_mono [of cfg mesh gim elem ns x t t'] show "n \<le> t'" by simp
qed

lemma pass2_child_total:
  assumes "pass1_child cfg mesh gim elem ns child n = Inr n1"
    and "idx < length (offsets g)" and "offsets g ! idx + c + (n1 - n) \<le> length (vals g)"
  shows "\<exists>g'. pass2_child cfg mesh gim elem idx ns child (g, c) = Inr (g', c + (n1 - n))
           \<and> offsets g' = offsets g \<and> length (vals g') = length (vals g)"
proof (cases "vm_count gim (elem_id (elems mesh child)) = 0")
  case True
  with assms(1) have "n1 = n" by (simp add: pass1_child_def)
  with True show ?thesis by (simp add: pass2_child_def)
next
  case False
  with assms(1) obtain np where np: "neighbor_ptr 335 (elems mesh child) ns = Inr np"
    and r: "(if np = Some elem
          then bindE (libmesh_assert cfg 337 (active (elems mesh child))) (\<lambda>_. Inr (n + 1))
          else Inr n) = Inr n1"
    by (auto simp: pass1_child_def bindE_eq_Inr)
  have np2: "neighbor_ptr 434 (elems mesh child) ns = Inr np"
    by (rule neighbor_ptr_line [OF np])
  show ?thesis
  proof (cases "np = Some elem")
    case ne: False
    with r have "n1 = n" by simp
    with False np2 ne show ?thesis by (simp add: pass2_child_def)
  next
    case eq: True
    with r have a: "libmesh_assert cfg 337 (active (elems mesh child)) = Inr ()" and n1: "n1 = n + 1"
      by (auto simp: bindE_eq_Inr)
    have a2: "libmesh_assert cfg 436 (active (elems mesh child)) = Inr ()"
      by (rule libmesh_assert_line [OF a])
    from vm_index_total [OF False] obtain v
      where v: "vm_index 438 gim (elem_id (elems mesh child)) = Inr v" by blast
    from assms(3) n1 have "offsets g ! idx + c < length (vals g)" by simp
    from csr_set_total [OF assms(2) this, of 438 v] obtain g' where
      "csr_set 438 g idx c v = Inr g'" "offsets g' = offsets g" "length (vals g') = length (vals g)"
      by blast
    with False np2 eq a2 v n1 show ?thesis by (simp add: pass2_child_def)
  qed
qed

lemma pass2_children_total:
  assumes "foldE (pass1_child cfg mesh gim elem ns) xs n = Inr n'"
    and "idx < length (offsets g)" and "offsets g ! idx + c + (n' - n) \<le> length (vals g)"
  shows "\<exists>g'. foldE (pass2_child cfg mesh gim elem idx ns) xs (g, c) = Inr (g', c + (n' - n))
           \<and> offsets g' = offsets g \<and> length (vals g') = length (vals g)"
  using assms
proof (induction xs arbitrary: n g c)
  case Nil
  then show ?case by simp
next
  case (Cons x xs)
  from Cons.prems(1) obtain n1 where s1: "pass1_child cfg mesh gim elem ns x n = Inr n1"
    and r1: "foldE (pass1_child cfg mesh gim elem ns) xs n1 = Inr n'"
    by (auto split: sum.splits)
  have m1: "n \<le> n1" by (rule pass1_child_mono [OF s1])
  have m2: "n1 \<le> n'" by (rule pass1_children_mono [OF r1])
  from Cons.prems(3) m1 m2 have cap1: "offsets g ! idx + c + (n1 - n) \<le> length (vals g)" by simp
  from pass2_child_total [OF s1 Cons.prems(2) cap1] obtain g1 where
    g1: "pass2_child cfg mesh gim elem idx ns x (g, c) = Inr (g1, c + (n1 - n))"
    "offsets g1 = offsets g" "length (vals g1) = length (vals g)" by blast
  have "\<exists>g'. foldE (pass2_child cfg mesh gim elem idx ns) xs (g1, c + (n1 - n)) =
           Inr (g', c + (n1 - n) + (n' - n1))
           \<and> offsets g' = offsets g1 \<and> length (vals g') = length (vals g1)"
  proof (rule Cons.IH [OF r1])
    show "idx < length (offsets g1)" using Cons.prems(2) g1(2) by simp
    show "offsets g1 ! idx + (c + (n1 - n)) + (n' - n1) \<le> length (vals g1)"
      using Cons.prems(3) m1 m2 g1(2,3) by simp
  qed
  moreover have "c + (n1 - n) + (n' - n1) = c + (n' - n)" using m1 m2 by simp
  ultimately show ?case using g1 by simp
qed

lemma pass1_neighbor_mono:
  assumes "pass1_neighbor cfg env mesh gim elem nb n = Inr n1"
  shows "n \<le> n1"
proof (cases nb)
  case None
  with assms show ?thesis by (simp add: pass1_neighbor_def)
next
  case (Some x)
  show ?thesis
  proof (cases "active (elems mesh x) \<or> \<not> ENABLE_AMR cfg")
    case True
    with assms Some show ?thesis by (auto simp: pass1_neighbor_def split: if_splits)
  next
    case False
    with assms Some have
      "foldE (pass1_child cfg mesh gim elem (which_neighbor_am_i env mesh x elem))
         (active_family_tree env mesh x) n = Inr n1"
      by (simp add: pass1_neighbor_def bindE_eq_Inr Let_def)
    then show ?thesis by (rule pass1_children_mono)
  qed
qed

lemma pass1_neighbors_mono:
  assumes "foldE (pass1_neighbor cfg env mesh gim elem) xs n = Inr n'"
  shows "n \<le> n'"
proof (rule foldE_preserves [where P = "\<lambda>m. n \<le> m", OF assms])
  show "n \<le> n" by simp
next
  fix x t t' assume "pass1_neighbor cfg env mesh gim elem x t = Inr t'" "n \<le> t"
  with pass1_neighbor_mono [of cfg env mesh gim elem x t t'] show "n \<le> t'" by simp
qed

lemma pass2_neighbor_total:
  assumes "pass1_neighbor cfg env mesh gim elem nb n = Inr n1"
    and "idx < length (offsets g)" and "offsets g ! idx + c + (n1 - n) \<le> length (vals g)"
  shows "\<exists>g'. pass2_neighbor cfg env mesh gim elem idx nb (g, c) = Inr (g', c + (n1 - n))
           \<and> offsets g' = offsets g \<and> length (vals g') = length (vals g)"
proof (cases nb)
  case None
  with assms(1) have "n1 = n" by (simp add: pass1_neighbor_def)
  with None show ?thesis by (simp add: pass2_neighbor_def)
next
  case (Some x)
  show ?thesis
  proof (cases "active (elems mesh x)")
    case True
    show ?thesis
    proof (cases "vm_count gim (elem_id (elems mesh x)) = 0")
      case z: True
      with assms(1) True Some have "n1 = n" by (simp add: pass1_neighbor_def)
      with z True Some show ?thesis by (simp add: pass2_neighbor_def)
    next
      case nz: False
      with assms(1) True Some have n1: "n1 = n + 1" by (simp add: pass1_neighbor_def)
      from vm_index_total [OF nz] obtain v
        where v: "vm_index 403 gim (elem_id (elems mesh x)) = Inr v" by blast
      from assms(3) n1 have "offsets g ! idx + c < length (vals g)" by simp
      from csr_set_total [OF assms(2) this, of 403 v] obtain g' where
        "csr_set 403 g idx c v = Inr g'" "offsets g' = offsets g"
        "length (vals g') = length (vals g)" by blast
      with nz True Some v n1 show ?thesis by (simp add: pass2_neighbor_def)
    qed
  next
    case False
    show ?thesis
    proof (cases "ENABLE_AMR cfg")
      case amr: True
      let ?ns = "which_neighbor_am_i env mesh x elem"
      from assms(1) False Some amr have
        a: "libmesh_assert cfg 309 (?ns < length (neighbors (elems mesh x))) = Inr ()"
        and f: "foldE (pass1_child cfg mesh gim elem ?ns) (active_family_tree env mesh x) n = Inr n1"
        by (simp_all add: pass1_neighbor_def bindE_eq_Inr Let_def)
      have a2: "libmesh_assert cfg 416 (?ns < length (neighbors (elems mesh x))) = Inr ()"
        by (rule libmesh_assert_line [OF a])
      from pass2_children_total [OF f assms(2,3)] False Some amr a2
      show ?thesis by (simp add: pass2_neighbor_def Let_def)
    next
      case noamr: False
      with assms(1) False Some have "n1 = n" by (simp add: pass1_neighbor_def)
      with noamr False Some show ?thesis by (simp add: pass2_neighbor_def)
    qed
  qed
qed

lemma pass2_neighbors_total:
  assumes "foldE (pass1_neighbor cfg env mesh gim elem) xs n = Inr n'"
    and "idx < length (offsets g)" and "offsets g ! idx + c + (n' - n) \<le> length (vals g)"
  shows "\<exists>g'. foldE (pass2_neighbor cfg env mesh gim elem idx) xs (g, c) = Inr (g', c + (n' - n))
           \<and> offsets g' = offsets g \<and> length (vals g') = length (vals g)"
  using assms
proof (induction xs arbitrary: n g c)
  case Nil
  then show ?case by simp
next
  case (Cons x xs)
  from Cons.prems(1) obtain n1 where s1: "pass1_neighbor cfg env mesh gim elem x n = Inr n1"
    and r1: "foldE (pass1_neighbor cfg env mesh gim elem) xs n1 = Inr n'"
    by (auto split: sum.splits)
  have m1: "n \<le> n1" by (rule pass1_neighbor_mono [OF s1])
  have m2: "n1 \<le> n'" by (rule pass1_neighbors_mono [OF r1])
  from Cons.prems(3) m1 m2 have cap1: "offsets g ! idx + c + (n1 - n) \<le> length (vals g)" by simp
  from pass2_neighbor_total [OF s1 Cons.prems(2) cap1] obtain g1 where
    g1: "pass2_neighbor cfg env mesh gim elem idx x (g, c) = Inr (g1, c + (n1 - n))"
    "offsets g1 = offsets g" "length (vals g1) = length (vals g)" by blast
  have "\<exists>g'. foldE (pass2_neighbor cfg env mesh gim elem idx) xs (g1, c + (n1 - n)) =
           Inr (g', c + (n1 - n) + (n' - n1))
           \<and> offsets g' = offsets g1 \<and> length (vals g') = length (vals g1)"
  proof (rule Cons.IH [OF r1])
    show "idx < length (offsets g1)" using Cons.prems(2) g1(2) by simp
    show "offsets g1 ! idx + (c + (n1 - n)) + (n' - n1) \<le> length (vals g1)"
      using Cons.prems(3) m1 m2 g1(2,3) by simp
  qed
  moreover have "c + (n1 - n) + (n' - n1) = c + (n' - n)" using m1 m2 by simp
  ultimately show ?case using g1 by simp
qed


lemma pass2_interiors_total:
  assumes "\<forall>nb \<in> set xs. query_elem_ptr mesh (elem_id (elems mesh nb)) = Some nb \<longrightarrow>
             vm_count gim (elem_id (elems mesh nb)) \<noteq> 0"
    and "idx < length (offsets g)"
    and "offsets g ! idx + c +
           length (filter (\<lambda>nb. query_elem_ptr mesh (elem_id (elems mesh nb)) = Some nb) xs)
         \<le> length (vals g)"
  shows "\<exists>g'. foldE (pass2_interior mesh gim idx) xs (g, c) =
             Inr (g', c + length (filter (\<lambda>nb. query_elem_ptr mesh (elem_id (elems mesh nb)) = Some nb) xs))
           \<and> offsets g' = offsets g \<and> length (vals g') = length (vals g)"
  using assms
proof (induction xs arbitrary: g c)
  case Nil
  then show ?case by simp
next
  case (Cons x xs)
  let ?in = "\<lambda>nb. query_elem_ptr mesh (elem_id (elems mesh nb)) = Some nb"
  show ?case
  proof (cases "?in x")
    case False
    then have s: "pass2_interior mesh gim idx x (g, c) = Inr (g, c)"
      by (simp add: pass2_interior_def)
    from Cons.IH [of g c] Cons.prems False s show ?thesis by simp
  next
    case True
    with Cons.prems(1) have "vm_count gim (elem_id (elems mesh x)) \<noteq> 0" by simp
    from vm_index_total [OF this] obtain v
      where v: "vm_index 469 gim (elem_id (elems mesh x)) = Inr v" by blast
    from Cons.prems(3) True have "offsets g ! idx + c < length (vals g)" by simp
    from csr_set_total [OF Cons.prems(2) this, of 468 v] obtain g1 where
      g1: "csr_set 468 g idx c v = Inr g1" "offsets g1 = offsets g"
      "length (vals g1) = length (vals g)" by blast
    with True v have s: "pass2_interior mesh gim idx x (g, c) = Inr (g1, c + 1)"
      by (simp add: pass2_interior_def)
    have "\<exists>g'. foldE (pass2_interior mesh gim idx) xs (g1, c + 1) =
             Inr (g', c + 1 + length (filter ?in xs))
           \<and> offsets g' = offsets g1 \<and> length (vals g') = length (vals g1)"
    proof (rule Cons.IH)
      show "\<forall>nb \<in> set xs. ?in nb \<longrightarrow> vm_count gim (elem_id (elems mesh nb)) \<noteq> 0"
        using Cons.prems(1) by simp
      show "idx < length (offsets g1)" using Cons.prems(2) g1(2) by simp
      show "offsets g1 ! idx + (c + 1) + length (filter ?in xs) \<le> length (vals g1)"
        using Cons.prems(3) True g1(2,3) by simp
    qed
    with s True g1 show ?thesis by simp
  qed
qed

lemma pass2_boundaries_total:
  assumes "\<forall>pr \<in> set xs. vm_count gim (elem_id (elems mesh (snd pr))) \<noteq> 0"
    and "idx < length (offsets g)"
    and "offsets g ! idx + c + length xs \<le> length (vals g)"
  shows "\<exists>g'. foldE (pass2_boundary mesh gim idx) xs (g, c) = Inr (g', c + length xs)
           \<and> offsets g' = offsets g \<and> length (vals g') = length (vals g)"
  using assms
proof (induction xs arbitrary: g c)
  case Nil
  then show ?case by simp
next
  case (Cons x xs)
  from Cons.prems(1) have "vm_count gim (elem_id (elems mesh (snd x))) \<noteq> 0" by simp
  from vm_index_total [OF this] obtain v
    where v: "vm_index 478 gim (elem_id (elems mesh (snd x))) = Inr v" by blast
  from Cons.prems(3) have "offsets g ! idx + c < length (vals g)" by simp
  from csr_set_total [OF Cons.prems(2) this, of 477 v] obtain g1 where
    g1: "csr_set 477 g idx c v = Inr g1" "offsets g1 = offsets g"
    "length (vals g1) = length (vals g)" by blast
  with v have s: "pass2_boundary mesh gim idx x (g, c) = Inr (g1, c + 1)"
    by (simp add: pass2_boundary_def)
  have "\<exists>g'. foldE (pass2_boundary mesh gim idx) xs (g1, c + 1) = Inr (g', c + 1 + length xs)
           \<and> offsets g' = offsets g1 \<and> length (vals g') = length (vals g1)"
  proof (rule Cons.IH)
    show "\<forall>pr \<in> set xs. vm_count gim (elem_id (elems mesh (snd pr))) \<noteq> 0"
      using Cons.prems(1) by simp
    show "idx < length (offsets g1)" using Cons.prems(2) g1(2) by simp
    show "offsets g1 ! idx + (c + 1) + length xs \<le> length (vals g1)"
      using Cons.prems(3) g1(2,3) by simp
  qed
  with s g1 show ?case by simp
qed

lemma pass2_elem_total:
  assumes n: "pass1_num_neighbors cfg env mesh gim i2b elem = Inr n"
    and idx: "map_of gim (elem_id (elems mesh elem)) = Some idx" "idx < length (offsets g)"
    and cap: "offsets g ! idx + n \<le> length (vals g)"
    and int: "has_interior_parent cfg (elems mesh elem) \<Longrightarrow>
        \<forall>nb \<in> set (std_set (find_interior_neighbors env mesh elem)).
           query_elem_ptr mesh (elem_id (elems mesh nb)) = Some nb \<longrightarrow>
             vm_count gim (elem_id (elems mesh nb)) \<noteq> 0"
    and bnd: "\<forall>pr \<in> set (equal_range i2b elem). vm_count gim (elem_id (elems mesh (snd pr))) \<noteq> 0"
  shows "\<exists>g' c. pass2_elem cfg env mesh gim i2b elem g = Inr (g', c)
           \<and> offsets g' = offsets g \<and> length (vals g') = length (vals g)"
proof -
  let ?int = "std_set (find_interior_neighbors env mesh elem)"
  let ?in = "\<lambda>nb. query_elem_ptr mesh (elem_id (elems mesh nb)) = Some nb"
  define L where "L = (if has_interior_parent cfg (elems mesh elem) then length ?int else 0)"
  define F where "F = (if has_interior_parent cfg (elems mesh elem)
                       then length (filter ?in ?int) else 0)"
  define B where "B = length (equal_range i2b elem)"
  from n obtain nf where
    f1: "foldE (pass1_neighbor cfg env mesh gim elem) (neighbors (elems mesh elem)) 0 = Inr nf"
    and nn: "n = nf + L + B"
    by (auto simp: pass1_num_neighbors_def bindE_eq_Inr L_def B_def)
  have FL: "F \<le> L" by (simp add: F_def L_def)
  from cap nn have cap1: "offsets g ! idx + 0 + (nf - 0) \<le> length (vals g)" by simp
  from pass2_neighbors_total [OF f1 idx(2) cap1] obtain g1 where
    g1: "foldE (pass2_neighbor cfg env mesh gim elem idx) (neighbors (elems mesh elem)) (g, 0) =
           Inr (g1, nf)" "offsets g1 = offsets g" "length (vals g1) = length (vals g)"
    by auto
  have "\<exists>g2. (if has_interior_parent cfg (elems mesh elem)
            then foldE (pass2_interior mesh gim idx) ?int (g1, nf)
            else Inr (g1, nf)) = Inr (g2, nf + F)
          \<and> offsets g2 = offsets g1 \<and> length (vals g2) = length (vals g1)"
  proof (cases "has_interior_parent cfg (elems mesh elem)")
    case False
    then show ?thesis by (simp add: F_def)
  next
    case True
    then have F: "F = length (filter ?in ?int)" by (simp add: F_def)
    have "\<exists>g'. foldE (pass2_interior mesh gim idx) ?int (g1, nf) =
             Inr (g', nf + length (filter ?in ?int))
           \<and> offsets g' = offsets g1 \<and> length (vals g') = length (vals g1)"
    proof (rule pass2_interiors_total)
      show "\<forall>nb \<in> set ?int. ?in nb \<longrightarrow> vm_count gim (elem_id (elems mesh nb)) \<noteq> 0"
        by (rule int [OF True])
      show "idx < length (offsets g1)" using idx(2) g1(2) by simp
      show "offsets g1 ! idx + nf + length (filter ?in ?int) \<le> length (vals g1)"
        unfolding g1(2,3) F [symmetric] using cap nn FL by linarith
    qed
    with True F show ?thesis by simp
  qed
  then obtain g2 where g2: "(if has_interior_parent cfg (elems mesh elem)
            then foldE (pass2_interior mesh gim idx) ?int (g1, nf)
            else Inr (g1, nf)) = Inr (g2, nf + F)"
    "offsets g2 = offsets g1" "length (vals g2) = length (vals g1)" by blast
  have "\<exists>g'. foldE (pass2_boundary mesh gim idx) (equal_range i2b elem) (g2, nf + F) =
           Inr (g', nf + F + length (equal_range i2b elem))
           \<and> offsets g' = offsets g2 \<and> length (vals g') = length (vals g2)"
  proof (rule pass2_boundaries_total [OF bnd])
    show "idx < length (offsets g2)" using idx(2) g1(2) g2(2) by simp
    show "offsets g2 ! idx + (nf + F) + length (equal_range i2b elem) \<le> length (vals g2)"
      unfolding g1(2,3) g2(2,3) B_def [symmetric] using cap nn FL by linarith
  qed
  then obtain g3 where g3: "foldE (pass2_boundary mesh gim idx) (equal_range i2b elem) (g2, nf + F) =
           Inr (g3, nf + F + B)" "offsets g3 = offsets g2" "length (vals g3) = length (vals g2)"
    unfolding B_def by blast
  have "pass2_elem cfg env mesh gim i2b elem g = Inr (g3, nf + F + B)"
    unfolding pass2_elem_def
    by (simp only: vm_index_eq_Inr [THEN iffD2, OF idx(1)] bindE_simps g1(1) g2(1) g3(1))
  with g1(2,3) g2(2,3) g3(2,3) show ?thesis by simp
qed


lemma pass2_loop_total:
  assumes "\<And>e g. e \<in> set es \<Longrightarrow> offsets g = offs \<Longrightarrow> length (vals g) = L \<Longrightarrow>
             \<exists>g' c. pass2_elem cfg env mesh gim i2b e g = Inr (g', c)
                  \<and> offsets g' = offs \<and> length (vals g') = L"
    and "offsets g = offs" and "length (vals g) = L"
  shows "\<exists>g'. foldE (\<lambda>elem g. bindE (pass2_elem cfg env mesh gim i2b elem g) (\<lambda>r. Inr (fst r)))
                es g = Inr g'"
  using assms
proof (induction es arbitrary: g)
  case Nil
  show ?case by simp
next
  case (Cons x es)
  from Cons.prems(1) [of x g] Cons.prems(2,3) obtain g1 c where
    g1: "pass2_elem cfg env mesh gim i2b x g = Inr (g1, c)" "offsets g1 = offs"
    "length (vals g1) = L" by auto
  have "\<exists>g'. foldE (\<lambda>elem g. bindE (pass2_elem cfg env mesh gim i2b elem g) (\<lambda>r. Inr (fst r)))
                es g1 = Inr g'"
  proof (rule Cons.IH [OF _ g1(2,3)])
    fix e and g :: CSR assume "e \<in> set es" "offsets g = offs" "length (vals g) = L"
    then show "\<exists>g' c. pass2_elem cfg env mesh gim i2b e g = Inr (g', c)
                  \<and> offsets g' = offs \<and> length (vals g') = L"
      using Cons.prems(1) [of e g] by simp
  qed
  with g1(1) show ?case by simp
qed

lemma snd_foldl_i2b:
  "snd ` set (foldl (\<lambda>m elem. i2b_elem cfg env mesh elem m) acc es) \<subseteq> snd ` set acc \<union> set es"
proof (induction es arbitrary: acc)
  case Nil
  show ?case by simp
next
  case (Cons x es)
  have "snd ` set (i2b_elem cfg env mesh x acc) \<subseteq> snd ` set acc \<union> {x}"
    by (auto simp: i2b_elem_def)
  with Cons.IH [of "i2b_elem cfg env mesh x acc"] show ?case by auto
qed

lemma snd_interior_to_boundary_map:
  "snd ` set (build_interior_to_boundary_map cfg env mesh es) \<subseteq> set es"
  using snd_foldl_i2b [of cfg env mesh "[]" es]
  by (simp add: build_interior_to_boundary_map_def)

lemma build_graph_total:
  assumes k: "keys_are gim ids"
    and ok: "\<forall>e \<in> set es. elem_ok cfg env mesh ids e"
    and d: "distinct (map (\<lambda>e. map_of gim (elem_id (elems mesh e))) es)"
    and r: "\<forall>e \<in> set es. \<exists>i. map_of gim (elem_id (elems mesh e)) = Some i \<and> i < length es"
    and inr: "\<forall>e \<in> set es. elem_id (elems mesh e) \<in> set ids"
    and b: "snd ` set i2b \<subseteq> set es"
  shows "\<exists>res. build_graph cfg env mesh gim i2b es = Inr res"
proof -
  let ?g0 = "\<lparr>offsets = replicate (length es + 1) 0, vals = []\<rparr>"
  have "\<exists>st'. foldE (pass1_elem cfg env mesh gim i2b) es (replicate (length es) 0, ?g0, 0) = Inr st'"
  proof (rule pass1_loop_total [OF k ok d])
    fix e assume "e \<in> set es"
    with r obtain i where "map_of gim (elem_id (elems mesh e)) = Some i" "i < length es" by blast
    then show "\<exists>i. map_of gim (elem_id (elems mesh e)) = Some i
        \<and> i < length (replicate (length es) (0 :: nat))
        \<and> i + 1 < length (offsets ?g0) \<and> offsets ?g0 ! (i + 1) = 0"
      by simp
  qed
  then obtain vwgt1 g1 gs1 where
    p1: "foldE (pass1_elem cfg env mesh gim i2b) es (replicate (length es) 0, ?g0, 0) =
           Inr (vwgt1, g1, gs1)"
    by (metis prod_cases3)
  have len: "length (offsets g1) = length es + 1"
  proof -
    have "gs1 = 0 + sum_list (map (row_width cfg env mesh gim i2b) es)
       \<and> sum_list (offsets g1) =
           sum_list (offsets ?g0) + sum_list (map (row_width cfg env mesh gim i2b) es)
       \<and> length (offsets g1) = length (offsets ?g0) \<and> vals g1 = vals ?g0"
    proof (rule pass1_loop [OF p1 d])
      fix e i assume "i + 1 < length (offsets ?g0)"
      then show "offsets ?g0 ! (i + 1) = 0" by simp
    qed
    then show ?thesis by simp
  qed
  from pass1_loop_offsets [OF p1 d] have
    w: "\<And>e i. e \<in> set es \<Longrightarrow> map_of gim (elem_id (elems mesh e)) = Some i \<Longrightarrow>
            offsets g1 ! (i + 1) = row_width cfg env mesh gim i2b e"
    by blast
  let ?g2 = "prepare_for_use g1"
  have "\<exists>g'. foldE (\<lambda>elem g. bindE (pass2_elem cfg env mesh gim i2b elem g) (\<lambda>r. Inr (fst r)))
                es ?g2 = Inr g'"
  proof (rule pass2_loop_total [where offs = "offsets ?g2" and L = "length (vals ?g2)"])
    fix e and g :: CSR assume e: "e \<in> set es" and og: "offsets g = offsets ?g2"
      and lg: "length (vals g) = length (vals ?g2)"
    from r e obtain i where i: "map_of gim (elem_id (elems mesh e)) = Some i" "i < length es"
      by blast
    from ok e have oke: "elem_ok cfg env mesh ids e" by simp
    from pass1_num_neighbors_total [OF k oke] obtain n
      where n: "pass1_num_neighbors cfg env mesh gim i2b e = Inr n" by blast
    then have rw: "row_width cfg env mesh gim i2b e = n" by (simp add: row_width_def)
    have i1: "i + 1 < length (offsets g1)" using i(2) len by simp
    have ilt: "i < length (offsets g)" using i(2) len og by (simp add: row_in_offsets)
    have cap: "offsets g ! i + n \<le> length (vals g)"
      using row_capacity [OF i1] w [OF e i(1)] rw og lg by simp
    have int: "\<forall>nb \<in> set (std_set (find_interior_neighbors env mesh e)).
           query_elem_ptr mesh (elem_id (elems mesh nb)) = Some nb \<longrightarrow>
             vm_count gim (elem_id (elems mesh nb)) \<noteq> 0"
      if "has_interior_parent cfg (elems mesh e)"
      using oke that vm_count_keys [OF k] by (simp add: elem_ok_def list_all_iff)
    have bnd: "\<forall>pr \<in> set (equal_range i2b e). vm_count gim (elem_id (elems mesh (snd pr))) \<noteq> 0"
    proof
      fix pr assume "pr \<in> set (equal_range i2b e)"
      then have "pr \<in> set i2b" by (simp add: equal_range_def)
      with b have "snd pr \<in> set es" by auto
      with inr have "elem_id (elems mesh (snd pr)) \<in> set ids" by simp
      with vm_count_keys [OF k] show "vm_count gim (elem_id (elems mesh (snd pr))) \<noteq> 0" by simp
    qed
    from pass2_elem_total [OF n i(1) ilt cap int bnd]
    show "\<exists>g' c. pass2_elem cfg env mesh gim i2b e g = Inr (g', c)
                  \<and> offsets g' = offsets ?g2 \<and> length (vals g') = length (vals ?g2)"
      using og lg by simp
  qed simp_all
  then obtain g' where "foldE (\<lambda>elem g. bindE (pass2_elem cfg env mesh gim i2b elem g)
       (\<lambda>r. Inr (fst r))) es ?g2 = Inr g'" by blast
  with p1 show ?thesis by (simp add: build_graph_def Let_def)
qed

lemma assign_elem_total:
  assumes "map_of gim (elem_id (elems mesh e)) = Some i" and "i < length part0"
  shows "\<exists>mesh'. assign_elem cfg gim part0 e mesh = Inr mesh'"
  using assms by (simp add: assign_elem_def vm_count_def vm_index_def)

lemma assign_loop_total:
  assumes "\<forall>e \<in> set es. \<exists>i. map_of gim (elem_id (elems mesh e)) = Some i \<and> i < length part0"
  shows "\<exists>mesh'. foldE (assign_elem cfg gim part0) es mesh = Inr mesh'"
  using assms
proof (induction es arbitrary: mesh)
  case Nil
  show ?case by simp
next
  case (Cons x es)
  from Cons.prems obtain i where i: "map_of gim (elem_id (elems mesh x)) = Some i"
    "i < length part0" by auto
  from assign_elem_total [OF i] obtain mesh1
    where s: "assign_elem cfg gim part0 x mesh = Inr mesh1" by blast
  from assign_elem_step [OF s] have ids: "elem_id (elems mesh1 a) = elem_id (elems mesh a)" for a
    by auto
  have "\<exists>mesh'. foldE (assign_elem cfg gim part0) es mesh1 = Inr mesh'"
    by (rule Cons.IH) (use Cons.prems ids in simp)
  with s show ?case by simp
qed


lemma index_map_facts:
  assumes "distinct (map fst gim)" and "set (map fst gim) = set ids"
    and "distinct (map snd gim)" and "set (map snd gim) = {..<n}" and "distinct ids"
  shows "keys_are gim ids"
    and "\<forall>k \<in> set ids. \<exists>i. map_of gim k = Some i \<and> i < n"
    and "distinct (map (map_of gim) ids)"
proof -
  show "keys_are gim ids"
    using assms(2) by (simp add: keys_are_def map_of_eq_None_iff)
  show r: "\<forall>k \<in> set ids. \<exists>i. map_of gim k = Some i \<and> i < n"
  proof
    fix k assume "k \<in> set ids"
    with assms(2) obtain i where ki: "(k, i) \<in> set gim" by force
    then have "i \<in> set (map snd gim)" by force
    with assms(4) have "i < n" by simp
    with ki assms(1) show "\<exists>i. map_of gim k = Some i \<and> i < n" by simp
  qed
  have "inj_on (map_of gim) (set ids)"
  proof (rule inj_onI)
    fix a b assume a: "a \<in> set ids" and b: "b \<in> set ids" and e: "map_of gim a = map_of gim b"
    from r a obtain i where i: "map_of gim a = Some i" by blast
    with e have j: "map_of gim b = Some i" by simp
    from i j assms(1) have ab: "(a, i) \<in> set gim" "(b, i) \<in> set gim" by simp_all
    have "inj_on snd (set gim)" using assms(3) by (simp add: distinct_map)
    from inj_onD [OF this, of "(a, i)" "(b, i)"] ab show "a = b" by simp
  qed
  with assms(5) show "distinct (map (map_of gim) ids)" by (simp add: distinct_map)
qed

lemma metis_block_total:
  assumes "build_graph cfg env mesh gim i2b es = Inr (vwgt, g, gs)"
    and "distinct (map (\<lambda>elem. map_of gim (elem_id (elems mesh elem))) es)"
  shows "\<exists>c part1. metis_block cfg env mesh gim i2b es k part0 = Inr (c, part1)
           \<and> (part1 = METIS_PartGraphRecursive env
                 \<lparr>nvtxs = cast_idx_t cfg (length es), ncon = 1, xadj = offsets g,
                  adjncy = vals g, vertex_weights = vwgt, nparts = cast_idx_t cfg k,
                  part_in = part0\<rparr>
              \<or> part1 = METIS_PartGraphKway env
                 \<lparr>nvtxs = cast_idx_t cfg (length es), ncon = 1, xadj = offsets g,
                  adjncy = vals g, vertex_weights = vwgt, nparts = cast_idx_t cfg k,
                  part_in = part0\<rparr>)"
proof -
  from build_graph_vals_size [OF assms] have "length (vals g) = max gs 1" by simp
  with assms(1) show ?thesis by (simp add: metis_block_def Let_def)
qed

lemma partition_range_total:
  fixes env :: Env and p :: Process and mesh mesh1 :: MeshBase and elem_range ids :: "nat list"
  defines "mesh1 \<equiv> snd (gather_if_distributed env p mesh)"
  defines "ids \<equiv> map (\<lambda>elem. elem_id (elems mesh1 elem)) elem_range"
  assumes "HAVE_METIS cfg" and "1 \<le> n_pieces"
    and "distinct ids"
    and "length (find_global_indices env mesh1 elem_range) = length elem_range"
    and "\<forall>h \<in> set (find_global_indices env mesh1 elem_range). h < length elem_range"
    and "ENABLE_UNIQUE_ID cfg \<longrightarrow> distinct (find_global_indices env mesh1 elem_range)"
    and "mesh_processor_id mesh1 = 0 \<Longrightarrow> \<forall>e \<in> set elem_range. elem_ok cfg env mesh1 ids e"
    and "\<And>a. mesh_processor_id mesh1 = 0 \<Longrightarrow> nvtxs a = cast_idx_t cfg (length elem_range) \<Longrightarrow>
           length (part_in a) = length elem_range \<Longrightarrow>
           length (METIS_PartGraphRecursive env a) = length elem_range
         \<and> length (METIS_PartGraphKway env a) = length elem_range"
    and "mesh_processor_id mesh1 \<noteq> 0 \<Longrightarrow> length (root_part env) = length elem_range"
  shows "\<exists>p' mesh'. partition_range cfg env p mesh elem_range n_pieces = (p', Inr mesh')"
proof (cases "elem_range = [] \<or> n_pieces = 1")
  case True
  then show ?thesis by (auto simp: partition_range_def)
next
  case False
  obtain p1 where g: "gather_if_distributed env p mesh = (p1, mesh1)"
    unfolding mesh1_def by (cases "gather_if_distributed env p mesh") simp
  from False assms(3,4) g
  have m: "partition_range cfg env p mesh elem_range n_pieces =
           metis_partition_range cfg env p1 mesh1 elem_range n_pieces"
    by (simp add: partition_range_def libmesh_assert_def)
  let ?n = "length elem_range"
  have lid: "length ids = ?n" by (simp add: ids_def)
  from build_global_index_map_ok [of ids "find_global_indices env mesh1 elem_range" cfg]
    assms(5-8) lid
  obtain gim where b: "build_global_index_map cfg ids (find_global_indices env mesh1 elem_range) = Inr gim"
    and gf: "distinct (map fst gim)" "set (map fst gim) = set ids"
    and gs: "distinct (map snd gim)" "set (map snd gim) = {..<?n}"
    by auto
  from index_map_facts [OF gf gs assms(5)] have
    k: "keys_are gim ids"
    and r: "\<forall>k \<in> set ids. \<exists>i. map_of gim k = Some i \<and> i < ?n"
    and d0: "distinct (map (map_of gim) ids)"
    by simp_all
  have d: "distinct (map (\<lambda>e. map_of gim (elem_id (elems mesh1 e))) elem_range)"
    using d0 by (simp add: ids_def comp_def)
  have re: "\<forall>e \<in> set elem_range. \<exists>i. map_of gim (elem_id (elems mesh1 e)) = Some i \<and> i < ?n"
    using r by (simp add: ids_def)
  have inr: "\<forall>e \<in> set elem_range. elem_id (elems mesh1 e) \<in> set ids"
    by (simp add: ids_def)
  have "\<exists>cs part2. partition_vector cfg env mesh1 gim elem_range n_pieces = (cs, Inr part2)
          \<and> length part2 = ?n"
  proof (cases "mesh_processor_id mesh1 = 0")
    case rank0: True
    let ?i2b = "build_interior_to_boundary_map cfg env mesh1 elem_range"
    from build_graph_total [OF k assms(9) [OF rank0] d re inr snd_interior_to_boundary_map]
    obtain vwgt gr gsz where bg: "build_graph cfg env mesh1 gim ?i2b elem_range = Inr (vwgt, gr, gsz)"
      by (metis prod_cases3)
    from metis_block_total [OF bg d, of n_pieces "replicate ?n 0"]
    obtain c part1 where mb: "metis_block cfg env mesh1 gim ?i2b elem_range n_pieces
          (replicate ?n 0) = Inr (c, part1)"
      and p1: "part1 = METIS_PartGraphRecursive env
                 \<lparr>nvtxs = cast_idx_t cfg ?n, ncon = 1, xadj = offsets gr, adjncy = vals gr,
                  vertex_weights = vwgt, nparts = cast_idx_t cfg n_pieces,
                  part_in = replicate ?n 0\<rparr>
              \<or> part1 = METIS_PartGraphKway env
                 \<lparr>nvtxs = cast_idx_t cfg ?n, ncon = 1, xadj = offsets gr, adjncy = vals gr,
                  vertex_weights = vwgt, nparts = cast_idx_t cfg n_pieces,
                  part_in = replicate ?n 0\<rparr>"
      by blast
    from p1 assms(10) [OF rank0, of "\<lparr>nvtxs = cast_idx_t cfg ?n, ncon = 1, xadj = offsets gr,
                  adjncy = vals gr, vertex_weights = vwgt, nparts = cast_idx_t cfg n_pieces,
                  part_in = replicate ?n 0\<rparr>"]
    have "length part1 = ?n" by auto
    with mb rank0 show ?thesis
      by (simp add: partition_vector_def Let_def broadcast_def)
  next
    case other: False
    with assms(11) show ?thesis
      by (simp add: partition_vector_def Let_def broadcast_def)
  qed
  then obtain cs part2 where pv: "partition_vector cfg env mesh1 gim elem_range n_pieces = (cs, Inr part2)"
    and lp: "length part2 = ?n" by blast
  from assign_loop_total [of elem_range gim mesh1 part2 cfg] re lp
  obtain mesh' where "foldE (assign_elem cfg gim part2) elem_range mesh1 = Inr mesh'" by auto
  with m b pv show ?thesis
    by (simp add: metis_partition_range_def Let_def ids_def)
qed


text \<open>The same for a call that is ready, and a call that is.\<close>

lemma partition_range_ready:
  fixes env :: Env and p :: Process and mesh mesh1 :: MeshBase
  defines "mesh1 \<equiv> snd (gather_if_distributed env p mesh)"
  assumes "HAVE_METIS cfg" and "1 \<le> n_pieces"
    and "call_ready cfg env mesh1 elem_range"
  shows "\<exists>p' mesh'. partition_range cfg env p mesh elem_range n_pieces = (p', Inr mesh')"
proof -
  note r = assms(4)
  let ?ids = "map (\<lambda>elem. elem_id (elems mesh1 elem)) elem_range"
  let ?gi = "find_global_indices env mesh1 elem_range"
  from r have d: "distinct ?ids" and l: "length ?gi = length elem_range"
    and b: "\<forall>h \<in> set ?gi. h < length elem_range"
    and u: "ENABLE_UNIQUE_ID cfg \<longrightarrow> distinct ?gi"
    by (simp_all add: call_ready_def Let_def list_all_iff)
  have ok: "\<forall>e \<in> set elem_range. elem_ok cfg env mesh1 ?ids e"
    if "mesh_processor_id mesh1 = 0"
    using r that by (simp add: call_ready_def Let_def list_all_iff)
  have len: "length (METIS_PartGraphRecursive env a) = length elem_range
         \<and> length (METIS_PartGraphKway env a) = length elem_range"
    if "mesh_processor_id mesh1 = 0" "nvtxs a = cast_idx_t cfg (length elem_range)"
      "length (part_in a) = length elem_range" for a
    using r that by (simp add: call_ready_def Let_def)
  have root: "length (root_part env) = length elem_range" if "mesh_processor_id mesh1 \<noteq> 0"
    using r that by (simp add: call_ready_def Let_def)
  show ?thesis
    using partition_range_total [OF assms(2,3), of env p mesh elem_range]
      d l b u ok len root
    unfolding mesh1_def by blast
qed

lemma call_ready_two_quads: "call_ready devel_config simple_env two_quads [10, 11]"
  by (simp add: call_ready_def elem_ok_def neighbor_ok_def has_interior_parent_def
      cast_idx_t_def devel_config_def simple_env_def two_quads_def quad4_def)


section \<open>The claims\<close>

lemmas model_defs = partition_range_def metis_partition_range_def partition_vector_def
  metis_block_def build_graph_def pass1_elem_def pass2_elem_def pass1_num_neighbors_def
  pass1_neighbor_def pass2_neighbor_def pass1_child_def pass2_child_def pass2_interior_def
  pass2_boundary_def build_global_index_map_def renumber_def emplace_direct_def vm_emplace_def
  vm_index_def vm_count_def build_interior_to_boundary_map_def i2b_elem_def equal_range_def
  std_set_def has_interior_parent_def prep_n_nonzeros_def prepare_for_use_def csr_set_def
  neighbor_ptr_def elem_weight_def broadcast_def assign_elem_def cast_processor_id_def
  cast_idx_t_def gather_if_distributed_def libmesh_assert_def libmesh_do_once_def

lemmas example_defs = devel_config_def opt_config_def no_metis_config_def simple_env_def
  two_quads_def distributed_quads_def quad4_def fresh_process_def edge_on_boundary_def
  boundary_mesh_def boundary_env_def mixed_mesh_def coincident_env_def

text \<open>
  C2. If the ids of the elements of the range are pairwise different and
  \<^verbatim>\<open>find_global_indices\<close> returns one index below \<open>n\<close> for each of the \<open>n\<close> elements
  (pairwise different ones in a build with unique ids), then the construction of
  \<^verbatim>\<open>global_index_map\<close> passes all its assertions and the map is a bijection from the ids
  of the range onto \<open>{0, ..., n-1}\<close>: every id is a key exactly once, no two ids have the
  same index, and every number below \<open>n\<close> is the index of some id.
\<close>

theorem global_index_map_bijection:
  assumes "distinct ids"
    and "length global_index = length ids"
    and "\<forall>h \<in> set global_index. h < length ids"
    and "ENABLE_UNIQUE_ID cfg \<longrightarrow> distinct global_index"
  shows "\<exists>global_index_map.
           build_global_index_map cfg ids global_index = Inr global_index_map
         \<and> length global_index_map = length ids
         \<and> distinct (map fst global_index_map)
         \<and> set (map fst global_index_map) = set ids
         \<and> distinct (map snd global_index_map)
         \<and> set (map snd global_index_map) = {..<length ids}
         \<and> bij_betw (\<lambda>i. the (map_of global_index_map i)) (set ids) {..<length ids}"
  using assms by (rule build_global_index_map_ok)

theorem global_index_map_bijection_witness:
  "distinct [10, 11, 12 :: nat] \<and> length [1, 1, 0 :: nat] = length [10, 11, 12 :: nat]
   \<and> \<not> ENABLE_UNIQUE_ID devel_config
   \<and> build_global_index_map devel_config [10, 11, 12] [1, 1, 0] =
       Inr [(12, 0), (10, 1), (11, 2)]
   \<and> bij_betw (\<lambda>i. the (map_of [(12, 0), (10, 1), (11, 2 :: nat)] i))
       (set [10, 11, 12 :: nat]) {..<length [10, 11, 12 :: nat]}"
proof -
  have e: "build_global_index_map devel_config [10, 11, 12] [1, 1, 0] =
             Inr [(12, 0), (10, 1), (11, 2)]"
    by (simp add: build_global_index_map_def devel_config_def libmesh_assert_def renumber_def
        vm_emplace_def)
  from global_index_map_bijection [of "[10, 11, 12]" "[1, 1, 0]" devel_config]
  show ?thesis unfolding e by (simp add: devel_config_def)
qed

text \<open>
  C3, evaluated where the code departs from it. Two elements with ids 1 and 2 receive
  the same index 0. Iterated as 1, 2 they get the indices 0 and 1; iterated as 2, 1
  they get 1 and 0: the buckets of lines 146-152 are filled, and numbered, in iteration
  order. With the collaborators that give every element the index 0, the two
  quadrilaterals are assigned to the parts 0 and 1 when the range lists them as
  10, 11, and to the parts 1 and 0 when it lists them as 11, 10.
\<close>

theorem global_index_map_order_dependent:
  "build_global_index_map devel_config [1, 2] [0, 0] = Inr [(1, 0), (2, 1)]
   \<and> build_global_index_map devel_config [2, 1] [0, 0] = Inr [(2, 0), (1, 1)]
   \<and> map_of [(1 :: nat, 0 :: nat), (2, 1)] 1 \<noteq> map_of [(2 :: nat, 0 :: nat), (1, 1)] 1
   \<and> snd (partition_range devel_config coincident_env fresh_process two_quads [10, 11] 2) =
       Inr (two_quads\<lparr>elems := (elems two_quads)
             (10 := (elems two_quads 10)\<lparr>processor_id := 0\<rparr>,
              11 := (elems two_quads 11)\<lparr>processor_id := 1\<rparr>)\<rparr>)
   \<and> snd (partition_range devel_config coincident_env fresh_process two_quads [11, 10] 2) =
       Inr (two_quads\<lparr>elems := (elems two_quads)
             (11 := (elems two_quads 11)\<lparr>processor_id := 0\<rparr>,
              10 := (elems two_quads 10)\<lparr>processor_id := 1\<rparr>)\<rparr>)"
  by (simp add: model_defs example_defs)

text \<open>
  C5. For a non-empty range and \<open>n_pieces = 1\<close> the call returns the mesh in which every
  element of the range has \<^verbatim>\<open>processor_id\<close> 0 and every other element is as before;
  the state of the process is unchanged: nothing is printed and no collaborator is
  called (no gather, no \<^verbatim>\<open>find_global_indices\<close>, no engine, no broadcast).
\<close>

theorem partition_range_single:
  assumes "elem_range \<noteq> []"
  shows "partition_range cfg env p mesh elem_range 1 =
           (p, Inr (single_partition_range mesh elem_range))
       \<and> (\<forall>elem \<in> set elem_range.
            processor_id (elems (single_partition_range mesh elem_range) elem) = 0)
       \<and> (\<forall>elem. elem \<notin> set elem_range \<longrightarrow>
            elems (single_partition_range mesh elem_range) elem = elems mesh elem)"
  using assms by (simp add: partition_range_def elems_single_partition_range)

theorem partition_range_single_witness:
  "[10, 11 :: nat] \<noteq> []
   \<and> partition_range devel_config simple_env fresh_process two_quads [10, 11] 1 =
       (fresh_process, Inr (single_partition_range two_quads [10, 11]))
   \<and> processor_id (elems (single_partition_range two_quads [10, 11]) 10) = 0
   \<and> processor_id (elems (single_partition_range two_quads [10, 11]) 11) = 0
   \<and> elems (single_partition_range two_quads [10, 11]) 12 = elems two_quads 12"
  using partition_range_single [of "[10, 11]" devel_config simple_env fresh_process two_quads]
  by simp

text \<open>
  C8, as stated, fails: with an empty range the call with \<open>n_pieces = 0\<close> returns
  normally, and in a build with \<^verbatim>\<open>NDEBUG\<close> the call with \<open>n_pieces = 0\<close> and a non-empty
  range runs to the end.
\<close>

theorem partition_range_zero_pieces_counterexample:
  "partition_range devel_config simple_env fresh_process two_quads [] 0 =
     (fresh_process, Inr two_quads)
   \<and> snd (partition_range opt_config simple_env fresh_process two_quads [10, 11] 0) =
       Inr two_quads"
  by (simp add: model_defs example_defs)

text \<open>
  C8, amended. In a build with assertions, every call with \<open>n_pieces = 0\<close> and a
  non-empty range halts at the assertion of line 84, before anything is printed, any
  collaborator is called or any element is changed.
\<close>

theorem partition_range_zero_pieces:
  assumes "elem_range \<noteq> []" and "\<not> NDEBUG cfg"
  shows "partition_range cfg env p mesh elem_range 0 = (p, Inl (AssertionFailure 84))"
  using assms by (simp add: partition_range_def libmesh_assert_def)

theorem partition_range_zero_pieces_witness:
  "[10, 11 :: nat] \<noteq> [] \<and> \<not> NDEBUG devel_config
   \<and> partition_range devel_config simple_env fresh_process two_quads [10, 11] 0 =
       (fresh_process, Inl (AssertionFailure 84))"
  using partition_range_zero_pieces [of "[10, 11]" devel_config simple_env fresh_process two_quads]
  by (simp add: devel_config_def)

text \<open>
  C10. With an empty range the call returns at once, whatever \<open>n_pieces\<close> is: the state
  of the process (output, calls made) and the mesh are those of the call; no assertion
  fires.
\<close>

theorem partition_range_empty:
  "partition_range cfg env p mesh [] n_pieces = (p, Inr mesh)"
  by (simp add: partition_range_def)

text \<open>
  C7. Whenever a call of \<^verbatim>\<open>partition_range\<close> has called the engine, the index map
  and the graph were built on the mesh left by the gather, and: if \<open>n_pieces \<le> 8\<close>, it
  called the recursive-bisection entry point and not the k-way one, and what the call
  returns is what the assignment loop makes of the vector left by
  \<^verbatim>\<open>METIS_PartGraphRecursive\<close>, called with the graph, the weights and \<open>n_pieces\<close>;
  if \<open>n_pieces > 8\<close>, the same with the two entry points exchanged. Nothing but
  \<open>n_pieces\<close> enters the choice.
\<close>

theorem engine_choice:
  fixes env :: Env and p p' :: Process and mesh mesh1 :: MeshBase
  defines "mesh1 \<equiv> snd (gather_if_distributed env p mesh)"
  assumes "partition_range cfg env p mesh elem_range n_pieces = (p', r)"
    and "PartGraphRecursive \<in> set (new_calls p p') \<or> PartGraphKway \<in> set (new_calls p p')"
  shows "\<exists>global_index_map vwgt csr_graph graph_size.
           build_global_index_map cfg (map (\<lambda>elem. elem_id (elems mesh1 elem)) elem_range)
             (find_global_indices env mesh1 elem_range) = Inr global_index_map
         \<and> build_graph cfg env mesh1 global_index_map
             (build_interior_to_boundary_map cfg env mesh1 elem_range) elem_range =
               Inr (vwgt, csr_graph, graph_size)
         \<and> (if n_pieces \<le> 8
            then PartGraphRecursive \<in> set (new_calls p p')
               \<and> PartGraphKway \<notin> set (new_calls p p')
               \<and> r = foldE (assign_elem cfg global_index_map
                        (METIS_PartGraphRecursive env
                           \<lparr>nvtxs = cast_idx_t cfg (length elem_range), ncon = 1,
                            xadj = offsets csr_graph, adjncy = vals csr_graph,
                            vertex_weights = vwgt, nparts = cast_idx_t cfg n_pieces,
                            part_in = replicate (length elem_range) 0\<rparr>))
                      elem_range mesh1
            else PartGraphKway \<in> set (new_calls p p')
               \<and> PartGraphRecursive \<notin> set (new_calls p p')
               \<and> r = foldE (assign_elem cfg global_index_map
                        (METIS_PartGraphKway env
                           \<lparr>nvtxs = cast_idx_t cfg (length elem_range), ncon = 1,
                            xadj = offsets csr_graph, adjncy = vals csr_graph,
                            vertex_weights = vwgt, nparts = cast_idx_t cfg n_pieces,
                            part_in = replicate (length elem_range) 0\<rparr>))
                      elem_range mesh1)"
proof -
  from partition_range_engine [OF assms(2,3)] obtain g0 gim c part1 where
    g0: "g0 = [] \<or> g0 = [Allgather]"
    and nc: "new_calls p p' = g0 @ [FindGlobalIndices, c, Broadcast]"
    and b: "build_global_index_map cfg (map (\<lambda>elem. elem_id (elems mesh1 elem)) elem_range)
              (find_global_indices env mesh1 elem_range) = Inr gim"
    and mb: "metis_block cfg env mesh1 gim (build_interior_to_boundary_map cfg env mesh1 elem_range)
              elem_range n_pieces (replicate (length elem_range) 0) = Inr (c, part1)"
    and r: "r = foldE (assign_elem cfg gim part1) elem_range mesh1"
    unfolding mesh1_def by blast
  let ?i2b = "build_interior_to_boundary_map cfg env mesh1 elem_range"
  obtain st where s: "build_graph cfg env mesh1 gim ?i2b elem_range = Inr st"
    using mb by (cases "build_graph cfg env mesh1 gim ?i2b elem_range")
      (simp_all add: metis_block_def)
  obtain vwgt and g :: CSR and gs where st: "st = (vwgt, g, gs)" by (cases st)
  from s st have bg: "build_graph cfg env mesh1 gim ?i2b elem_range = Inr (vwgt, g, gs)"
    by simp
  from mb bg have e: "(c, part1) =
             (if n_pieces \<le> 8
              then (PartGraphRecursive, METIS_PartGraphRecursive env
                      \<lparr>nvtxs = cast_idx_t cfg (length elem_range), ncon = 1, xadj = offsets g,
                       adjncy = vals g, vertex_weights = vwgt, nparts = cast_idx_t cfg n_pieces,
                       part_in = replicate (length elem_range) 0\<rparr>)
              else (PartGraphKway, METIS_PartGraphKway env
                      \<lparr>nvtxs = cast_idx_t cfg (length elem_range), ncon = 1, xadj = offsets g,
                       adjncy = vals g, vertex_weights = vwgt, nparts = cast_idx_t cfg n_pieces,
                       part_in = replicate (length elem_range) 0\<rparr>))"
    by (simp add: metis_block_def bindE_eq_Inr Let_def split: if_splits)
  show ?thesis
  proof (intro exI conjI)
    show "build_global_index_map cfg (map (\<lambda>elem. elem_id (elems mesh1 elem)) elem_range)
             (find_global_indices env mesh1 elem_range) = Inr gim" by (rule b)
    show "build_graph cfg env mesh1 gim (build_interior_to_boundary_map cfg env mesh1 elem_range)
           elem_range = Inr (vwgt, g, gs)" by (rule bg)
    from g0 nc e r show "if n_pieces \<le> 8
            then PartGraphRecursive \<in> set (new_calls p p')
               \<and> PartGraphKway \<notin> set (new_calls p p')
               \<and> r = foldE (assign_elem cfg gim
                        (METIS_PartGraphRecursive env
                           \<lparr>nvtxs = cast_idx_t cfg (length elem_range), ncon = 1,
                            xadj = offsets g, adjncy = vals g,
                            vertex_weights = vwgt, nparts = cast_idx_t cfg n_pieces,
                            part_in = replicate (length elem_range) 0\<rparr>))
                      elem_range mesh1
            else PartGraphKway \<in> set (new_calls p p')
               \<and> PartGraphRecursive \<notin> set (new_calls p p')
               \<and> r = foldE (assign_elem cfg gim
                        (METIS_PartGraphKway env
                           \<lparr>nvtxs = cast_idx_t cfg (length elem_range), ncon = 1,
                            xadj = offsets g, adjncy = vals g,
                            vertex_weights = vwgt, nparts = cast_idx_t cfg n_pieces,
                            part_in = replicate (length elem_range) 0\<rparr>))
                      elem_range mesh1"
      by (auto split: if_splits)
  qed
qed

theorem engine_choice_witness:
  "partition_range devel_config simple_env fresh_process two_quads [10, 11] 2 =
     (fresh_process\<lparr>calls := [FindGlobalIndices, PartGraphRecursive, Broadcast]\<rparr>,
      Inr (two_quads\<lparr>elems := (elems two_quads)
             (10 := (elems two_quads 10)\<lparr>processor_id := 0\<rparr>,
              11 := (elems two_quads 11)\<lparr>processor_id := 1\<rparr>)\<rparr>))
   \<and> partition_range devel_config simple_env fresh_process two_quads [10, 11] 9 =
     (fresh_process\<lparr>calls := [FindGlobalIndices, PartGraphKway, Broadcast]\<rparr>,
      Inr (two_quads\<lparr>elems := (elems two_quads)
             (10 := (elems two_quads 10)\<lparr>processor_id := 8\<rparr>,
              11 := (elems two_quads 11)\<lparr>processor_id := 7\<rparr>)\<rparr>))
   \<and> foldE (assign_elem devel_config [(0, 0), (1, 1)]
        (METIS_PartGraphRecursive simple_env
           \<lparr>nvtxs = 2, ncon = 1, xadj = [0, 1, 2], adjncy = [1, 0], vertex_weights = [4, 4],
            nparts = 2, part_in = [0, 0]\<rparr>)) [10, 11] two_quads =
      Inr (two_quads\<lparr>elems := (elems two_quads)
             (10 := (elems two_quads 10)\<lparr>processor_id := 0\<rparr>,
              11 := (elems two_quads 11)\<lparr>processor_id := 1\<rparr>)\<rparr>)
   \<and> foldE (assign_elem devel_config [(0, 0), (1, 1)]
        (METIS_PartGraphKway simple_env
           \<lparr>nvtxs = 2, ncon = 1, xadj = [0, 1, 2], adjncy = [1, 0], vertex_weights = [4, 4],
            nparts = 9, part_in = [0, 0]\<rparr>)) [10, 11] two_quads =
      Inr (two_quads\<lparr>elems := (elems two_quads)
             (10 := (elems two_quads 10)\<lparr>processor_id := 8\<rparr>,
              11 := (elems two_quads 11)\<lparr>processor_id := 7\<rparr>)\<rparr>)"
proof -
  let ?r2 = "Inr (two_quads\<lparr>elems := (elems two_quads)
             (10 := (elems two_quads 10)\<lparr>processor_id := 0\<rparr>,
              11 := (elems two_quads 11)\<lparr>processor_id := 1\<rparr>)\<rparr>) :: error + MeshBase"
  let ?r9 = "Inr (two_quads\<lparr>elems := (elems two_quads)
             (10 := (elems two_quads 10)\<lparr>processor_id := 8\<rparr>,
              11 := (elems two_quads 11)\<lparr>processor_id := 7\<rparr>)\<rparr>) :: error + MeshBase"
  have e2: "partition_range devel_config simple_env fresh_process two_quads [10, 11] 2 =
     (fresh_process\<lparr>calls := [FindGlobalIndices, PartGraphRecursive, Broadcast]\<rparr>, ?r2)"
    by (simp add: model_defs example_defs)
  have e9: "partition_range devel_config simple_env fresh_process two_quads [10, 11] 9 =
     (fresh_process\<lparr>calls := [FindGlobalIndices, PartGraphKway, Broadcast]\<rparr>, ?r9)"
    by (simp add: model_defs example_defs)
  have t2: "PartGraphRecursive \<in> set (new_calls fresh_process
               (fresh_process\<lparr>calls := [FindGlobalIndices, PartGraphRecursive, Broadcast]\<rparr>))
          \<or> PartGraphKway \<in> set (new_calls fresh_process
               (fresh_process\<lparr>calls := [FindGlobalIndices, PartGraphRecursive, Broadcast]\<rparr>))"
    by (simp add: new_calls_def fresh_process_def)
  have t9: "PartGraphRecursive \<in> set (new_calls fresh_process
               (fresh_process\<lparr>calls := [FindGlobalIndices, PartGraphKway, Broadcast]\<rparr>))
          \<or> PartGraphKway \<in> set (new_calls fresh_process
               (fresh_process\<lparr>calls := [FindGlobalIndices, PartGraphKway, Broadcast]\<rparr>))"
    by (simp add: new_calls_def fresh_process_def)
  have m: "snd (gather_if_distributed simple_env fresh_process two_quads) = two_quads"
    by (simp add: gather_if_distributed_def two_quads_def)
  have gim: "build_global_index_map devel_config
       (map (\<lambda>elem. elem_id (elems two_quads elem)) [10, 11])
       (find_global_indices simple_env two_quads [10, 11]) = Inr [(0, 0), (1, 1)]"
    by (simp add: model_defs example_defs)
  have i2b: "build_interior_to_boundary_map devel_config simple_env two_quads [10, 11] = []"
    by (simp add: model_defs example_defs)
  have bg: "build_graph devel_config simple_env two_quads [(0, 0), (1, 1)] [] [10, 11] =
     Inr ([4, 4], \<lparr>offsets = [0, 1, 2], vals = [1, 0]\<rparr>, 2)"
    by (simp add: model_defs example_defs)
  have c: "cast_idx_t devel_config (length [10, 11 :: nat]) = 2"
      "cast_idx_t devel_config 2 = 2" "cast_idx_t devel_config 9 = 9"
    by (simp_all add: cast_idx_t_def devel_config_def)
  from engine_choice [OF e2 t2] have
    r2: "?r2 = foldE (assign_elem devel_config [(0, 0), (1, 1)]
        (METIS_PartGraphRecursive simple_env
           \<lparr>nvtxs = 2, ncon = 1, xadj = [0, 1, 2], adjncy = [1, 0], vertex_weights = [4, 4],
            nparts = 2, part_in = [0, 0]\<rparr>)) [10, 11] two_quads"
    unfolding m gim i2b c by (auto simp: bg [simplified] simp del: foldE.simps)
  from engine_choice [OF e9 t9] have
    r9: "?r9 = foldE (assign_elem devel_config [(0, 0), (1, 1)]
        (METIS_PartGraphKway simple_env
           \<lparr>nvtxs = 2, ncon = 1, xadj = [0, 1, 2], adjncy = [1, 0], vertex_weights = [4, 4],
            nparts = 9, part_in = [0, 0]\<rparr>)) [10, 11] two_quads"
    unfolding m gim i2b c by (auto simp: bg [simplified] simp del: foldE.simps)
  from e2 e9 r2 [symmetric] r9 [symmetric] show ?thesis by (intro conjI)
qed

text \<open>
  C9, as stated, fails: two calls in one run of a process, each on a mesh that is not
  replicated (the mesh was distributed again after the first call, or it is another
  mesh), print the warning twice.
\<close>

theorem gather_warning_counterexample:
  "count_list (out (fst (partition_range devel_config simple_env
      (fst (partition_range devel_config simple_env fresh_process distributed_quads [10, 11] 2))
      distributed_quads [10, 11] 2))) gather_warning = 2"
  by (simp add: model_defs example_defs)

text \<open>
  C9, amended. Take a run of a process made of calls with a non-empty range and
  \<open>n_pieces > 1\<close>. The number of warnings printed in the run, and the number of calls
  of \<^verbatim>\<open>allgather\<close>, is the number of its calls on a mesh that is not replicated: one
  warning and one gather on every such call. The three lines of the notice of the
  missing engine are printed once in a run with at least one call in a build without
  the engine, and never otherwise. Every such call on a mesh that is not replicated is the rest of the
  function (the engine branch, or the space-filling curve partitioner) run on the
  gathered mesh, after the warning.
\<close>

theorem gather_warning_each_call:
  assumes "\<forall>c \<in> set cs. fst (snd c) \<noteq> [] \<and> 1 < snd (snd c)"
  shows "count_list (out (run_calls cfg env fresh_process cs)) gather_warning =
           length (filter (\<lambda>c. \<not> is_serial (fst c)) cs)
       \<and> count_list (calls (run_calls cfg env fresh_process cs)) Allgather =
           length (filter (\<lambda>c. \<not> is_serial (fst c)) cs)
       \<and> filter (\<lambda>l. l \<in> set no_metis_notice) (out (run_calls cfg env fresh_process cs)) =
           (if HAVE_METIS cfg \<or> cs = [] then [] else no_metis_notice)
       \<and> (\<forall>p mesh elem_range n_pieces.
            elem_range \<noteq> [] \<longrightarrow> 1 < n_pieces \<longrightarrow> \<not> is_serial mesh \<longrightarrow>
            partition_range cfg env p mesh elem_range n_pieces =
              (let p1 = p\<lparr>out := out p @ [gather_warning], calls := calls p @ [Allgather]\<rparr>
               in if HAVE_METIS cfg
                  then metis_partition_range cfg env p1 (allgather env mesh) elem_range n_pieces
                  else
                    (let p2 = libmesh_do_once no_metis_notice p1
                     in (p2\<lparr>calls := calls p2 @ [SFCPartition]\<rparr>,
                         sfc_partition_range env (allgather env mesh) elem_range n_pieces))))"
proof -
  have call: "partition_range cfg env p mesh elem_range n_pieces =
      (let p1 = (if is_serial mesh then p
                 else p\<lparr>out := out p @ [gather_warning], calls := calls p @ [Allgather]\<rparr>);
           mesh1 = (if is_serial mesh then mesh else allgather env mesh)
       in if HAVE_METIS cfg
          then metis_partition_range cfg env p1 mesh1 elem_range n_pieces
          else
            (let p2 = libmesh_do_once no_metis_notice p1
             in (p2\<lparr>calls := calls p2 @ [SFCPartition]\<rparr>,
                 sfc_partition_range env mesh1 elem_range n_pieces)))"
    if "elem_range \<noteq> []" "1 < n_pieces" for p mesh elem_range n_pieces
    using that
    by (simp add: partition_range_def gather_if_distributed_def libmesh_assert_def Let_def)
  have step: "out (fst (partition_range cfg env p mesh elem_range n_pieces)) =
           out p @ (if is_serial mesh then [] else [gather_warning])
                 @ (if HAVE_METIS cfg \<or> did_this_already p then [] else no_metis_notice)
      \<and> did_this_already (fst (partition_range cfg env p mesh elem_range n_pieces)) =
           (did_this_already p \<or> \<not> HAVE_METIS cfg)
      \<and> count_list (calls (fst (partition_range cfg env p mesh elem_range n_pieces))) Allgather =
           count_list (calls p) Allgather + (if is_serial mesh then 0 else 1)"
    if ne: "elem_range \<noteq> []" and k: "1 < n_pieces" for p mesh elem_range n_pieces
  proof (cases "HAVE_METIS cfg")
    case False
    then show ?thesis
      by (simp add: call [OF ne k] Let_def libmesh_do_once_def)
  next
    case True
    let ?p1 = "if is_serial mesh then p
               else p\<lparr>out := out p @ [gather_warning], calls := calls p @ [Allgather]\<rparr>"
    let ?m1 = "if is_serial mesh then mesh else allgather env mesh"
    from metis_partition_range_process [of cfg env ?p1 ?m1 elem_range n_pieces]
    show ?thesis using True by (auto simp: call [OF ne k] Let_def)
  qed
  have run: "count_list (out (run_calls cfg env p cs')) gather_warning =
           count_list (out p) gather_warning + length (filter (\<lambda>c. \<not> is_serial (fst c)) cs')
       \<and> count_list (calls (run_calls cfg env p cs')) Allgather =
           count_list (calls p) Allgather + length (filter (\<lambda>c. \<not> is_serial (fst c)) cs')
       \<and> filter (\<lambda>l. l \<in> set no_metis_notice) (out (run_calls cfg env p cs')) =
           filter (\<lambda>l. l \<in> set no_metis_notice) (out p)
             @ (if HAVE_METIS cfg \<or> did_this_already p \<or> cs' = [] then [] else no_metis_notice)"
    if "\<forall>c \<in> set cs'. fst (snd c) \<noteq> [] \<and> 1 < snd (snd c)" for cs' p
    using that
  proof (induction cs' arbitrary: p)
    case Nil
    show ?case by simp
  next
    case (Cons c cs')
    obtain mesh elem_range n_pieces where c: "c = (mesh, elem_range, n_pieces)" by (cases c)
    let ?p = "fst (partition_range cfg env p mesh elem_range n_pieces)"
    from Cons.prems c have ne: "elem_range \<noteq> []" and k: "1 < n_pieces" by simp_all
    from Cons.prems have rest: "\<forall>c \<in> set cs'. fst (snd c) \<noteq> [] \<and> 1 < snd (snd c)" by simp
    from Cons.IH [OF rest, of ?p] show ?case
      using warning_neq_notice by (auto simp: c step [OF ne k])
  qed
  have gathered: "\<forall>p mesh elem_range n_pieces.
            elem_range \<noteq> [] \<longrightarrow> 1 < n_pieces \<longrightarrow> \<not> is_serial mesh \<longrightarrow>
            partition_range cfg env p mesh elem_range n_pieces =
              (let p1 = p\<lparr>out := out p @ [gather_warning], calls := calls p @ [Allgather]\<rparr>
               in if HAVE_METIS cfg
                  then metis_partition_range cfg env p1 (allgather env mesh) elem_range n_pieces
                  else
                    (let p2 = libmesh_do_once no_metis_notice p1
                     in (p2\<lparr>calls := calls p2 @ [SFCPartition]\<rparr>,
                         sfc_partition_range env (allgather env mesh) elem_range n_pieces)))"
    by (simp add: call Let_def)
  with run [OF assms, of fresh_process] show ?thesis
    by (simp add: fresh_process_def)
qed

theorem gather_warning_each_call_witness:
  "out (run_calls devel_config simple_env fresh_process
          [(distributed_quads, [10, 11], 2), (two_quads, [10, 11], 2),
           (distributed_quads, [10, 11], 3)]) = [gather_warning, gather_warning]
   \<and> count_list (out (run_calls devel_config simple_env fresh_process
          [(distributed_quads, [10, 11], 2), (two_quads, [10, 11], 2),
           (distributed_quads, [10, 11], 3)])) gather_warning = 2
   \<and> out (run_calls no_metis_config simple_env fresh_process
          [(distributed_quads, [10, 11], 2), (two_quads, [10, 11], 2),
           (distributed_quads, [10, 11], 3)]) =
        gather_warning # no_metis_notice @ [gather_warning]
   \<and> filter (\<lambda>l. l \<in> set no_metis_notice)
        (out (run_calls no_metis_config simple_env fresh_process
          [(distributed_quads, [10, 11], 2), (two_quads, [10, 11], 2),
           (distributed_quads, [10, 11], 3)])) = no_metis_notice
   \<and> snd (partition_range devel_config simple_env fresh_process distributed_quads [10, 11] 2) =
        snd (metis_partition_range devel_config simple_env
               (fresh_process\<lparr>out := [gather_warning], calls := [Allgather]\<rparr>)
               (allgather simple_env distributed_quads) [10, 11] 2)
   \<and> is_serial (allgather simple_env distributed_quads)
   \<and> snd (partition_range devel_config simple_env fresh_process distributed_quads [10, 11] 2) =
        Inr (two_quads\<lparr>elems := (elems two_quads)
               (10 := (elems two_quads 10)\<lparr>processor_id := 0\<rparr>,
                11 := (elems two_quads 11)\<lparr>processor_id := 1\<rparr>)\<rparr>)"
proof -
  let ?cs = "[(distributed_quads, [10, 11 :: nat], 2 :: nat), (two_quads, [10, 11], 2),
           (distributed_quads, [10, 11], 3)]"
  have h: "\<forall>c \<in> set ?cs. fst (snd c) \<noteq> [] \<and> 1 < snd (snd c)" by simp
  have s: "length (filter (\<lambda>c. \<not> is_serial (fst c)) ?cs) = 2"
    by (simp add: distributed_quads_def two_quads_def)
  have o1: "out (run_calls devel_config simple_env fresh_process ?cs) =
      [gather_warning, gather_warning]"
    by (simp add: model_defs example_defs)
  have o2: "out (run_calls no_metis_config simple_env fresh_process ?cs) =
        gather_warning # no_metis_notice @ [gather_warning]"
    by (simp add: model_defs example_defs)
  have a: "is_serial (allgather simple_env distributed_quads)"
    by (simp add: simple_env_def)
  have r: "snd (partition_range devel_config simple_env fresh_process distributed_quads [10, 11] 2) =
        Inr (two_quads\<lparr>elems := (elems two_quads)
               (10 := (elems two_quads 10)\<lparr>processor_id := 0\<rparr>,
                11 := (elems two_quads 11)\<lparr>processor_id := 1\<rparr>)\<rparr>)"
    by (simp add: model_defs example_defs)
  note t1 = gather_warning_each_call [OF h, of devel_config simple_env]
  note t2 = gather_warning_each_call [OF h, of no_metis_config simple_env]
  from t1 s have w: "count_list (out (run_calls devel_config simple_env fresh_process ?cs))
      gather_warning = 2" by simp
  from t2 have n: "filter (\<lambda>l. l \<in> set no_metis_notice)
      (out (run_calls no_metis_config simple_env fresh_process ?cs)) = no_metis_notice"
    by (simp add: no_metis_config_def)
  from t1 have g: "snd (partition_range devel_config simple_env fresh_process distributed_quads [10, 11] 2) =
        snd (metis_partition_range devel_config simple_env
               (fresh_process\<lparr>out := [gather_warning], calls := [Allgather]\<rparr>)
               (allgather simple_env distributed_quads) [10, 11] 2)"
    by (simp add: devel_config_def distributed_quads_def two_quads_def fresh_process_def)
  from o1 w o2 n g a r show ?thesis by (intro conjI)
qed

text \<open>
  C6. When the graph has been built and the elements of the range have pairwise
  different global indices, \<^verbatim>\<open>graph_size\<close> is the sum over the range of the row widths
  counted in the first pass, and the value array has \<open>max graph_size 1\<close> entries: one
  dummy entry when no element has a neighbour, as many entries as edges otherwise.
\<close>

theorem csr_vals_size:
  assumes "build_graph cfg env mesh gim i2b elem_range = Inr (vwgt, csr_graph, graph_size)"
    and "distinct (map (\<lambda>elem. map_of gim (elem_id (elems mesh elem))) elem_range)"
  shows "graph_size = sum_list (map (row_width cfg env mesh gim i2b) elem_range)
       \<and> length (vals csr_graph) = max graph_size 1"
  using assms by (rule build_graph_vals_size)

theorem csr_vals_size_witness:
  "build_graph devel_config simple_env two_quads [(12, 0)] [] [12] =
     Inr ([4], \<lparr>offsets = [0, 0], vals = [0]\<rparr>, 0)
   \<and> length (vals \<lparr>offsets = [0, 0 :: nat], vals = [0 :: nat]\<rparr>) = max (0 :: nat) 1
   \<and> build_graph devel_config simple_env two_quads [(0, 0), (1, 1)] [] [10, 11] =
     Inr ([4, 4], \<lparr>offsets = [0, 1, 2], vals = [1, 0]\<rparr>, 2)
   \<and> length (vals \<lparr>offsets = [0, 1, 2 :: nat], vals = [1, 0 :: nat]\<rparr>) = max (2 :: nat) 1"
proof -
  have e1: "build_graph devel_config simple_env two_quads [(12, 0)] [] [12] =
     Inr ([4], \<lparr>offsets = [0, 0], vals = [0]\<rparr>, 0)"
    by (simp add: model_defs example_defs)
  have e2: "build_graph devel_config simple_env two_quads [(0, 0), (1, 1)] [] [10, 11] =
     Inr ([4, 4], \<lparr>offsets = [0, 1, 2], vals = [1, 0]\<rparr>, 2)"
    by (simp add: model_defs example_defs)
  have d1: "distinct (map (\<lambda>elem. map_of [(12, 0 :: nat)] (elem_id (elems two_quads elem))) [12])"
    by simp
  have d2: "distinct (map (\<lambda>elem. map_of [(0, 0 :: nat), (1, 1)] (elem_id (elems two_quads elem)))
              [10, 11])"
    by (simp add: example_defs)
  from csr_vals_size [OF e1 d1] csr_vals_size [OF e2 d2] e1 e2 show ?thesis by simp
qed

text \<open>
  C4, evaluated where the code departs from it. The range is the single edge of the
  boundary mesh, whose interior parent belongs to another mesh. The first pass counts
  the interior parent (row width 1); the second pass skips it, because
  \<^verbatim>\<open>mesh.query_elem_ptr\<close> does not return it, and writes no entry. The graph that is
  built has one value slot, still holding its initial 0.
\<close>

theorem row_width_mismatch:
  "build_global_index_map devel_config [0] [0] = Inr [(0, 0)]
   \<and> build_interior_to_boundary_map devel_config boundary_env boundary_mesh [20] = [(30, 20)]
   \<and> pass1_num_neighbors devel_config boundary_env boundary_mesh [(0, 0)] [(30, 20)] 20 = Inr 1
   \<and> pass2_elem devel_config boundary_env boundary_mesh [(0, 0)] [(30, 20)] 20
        \<lparr>offsets = [0, 1], vals = [0]\<rparr> = Inr (\<lparr>offsets = [0, 1], vals = [0]\<rparr>, 0)
   \<and> build_graph devel_config boundary_env boundary_mesh [(0, 0)] [(30, 20)] [20] =
        Inr ([2], \<lparr>offsets = [0, 1], vals = [0]\<rparr>, 1)"
  by (simp add: model_defs example_defs)

text \<open>
  C1, evaluated where the code departs from it. The mesh holds an edge and its interior
  parent, a quadrilateral; the range is the edge alone and \<open>n_pieces = 2\<close>. The first
  pass counts the quadrilateral as a neighbour of the edge (row width 1); the second
  pass finds it in the mesh and looks its id up with \<^verbatim>\<open>libmesh_map_find\<close> in the index
  map, which holds the ids of the range only. The call ends there, with or without
  \<^verbatim>\<open>NDEBUG\<close>, after \<^verbatim>\<open>find_global_indices\<close> and before the engine, the broadcast and
  the assignment loop: no element of the range is assigned. With both elements in the
  range the call returns and assigns both. A face neighbour that is outside the range
  is skipped in both passes (lines 290 and 397): the call on the first of the two
  quadrilaterals returns and assigns it.
\<close>

theorem partition_range_interior_neighbor_outside_range:
  "partition_range devel_config boundary_env fresh_process mixed_mesh [20] 2 =
     (fresh_process\<lparr>calls := [FindGlobalIndices]\<rparr>, Inl (KeyNotFound 469))
   \<and> partition_range opt_config boundary_env fresh_process mixed_mesh [20] 2 =
     (fresh_process\<lparr>calls := [FindGlobalIndices]\<rparr>, Inl (KeyNotFound 469))
   \<and> pass1_num_neighbors devel_config boundary_env mixed_mesh [(0, 0)] [(30, 20)] 20 = Inr 1
   \<and> pass2_elem devel_config boundary_env mixed_mesh [(0, 0)] [(30, 20)] 20
        \<lparr>offsets = [0, 1], vals = [0]\<rparr> = Inl (KeyNotFound 469)
   \<and> partition_range devel_config boundary_env fresh_process mixed_mesh [20, 30] 2 =
     (fresh_process\<lparr>calls := [FindGlobalIndices, PartGraphRecursive, Broadcast]\<rparr>,
      Inr (mixed_mesh\<lparr>elems := (elems mixed_mesh)
             (20 := (elems mixed_mesh 20)\<lparr>processor_id := 0\<rparr>,
              30 := (elems mixed_mesh 30)\<lparr>processor_id := 1\<rparr>)\<rparr>))
   \<and> partition_range devel_config simple_env fresh_process two_quads [10] 2 =
     (fresh_process\<lparr>calls := [FindGlobalIndices, PartGraphRecursive, Broadcast]\<rparr>,
      Inr (two_quads\<lparr>elems := (elems two_quads)
             (10 := (elems two_quads 10)\<lparr>processor_id := 0\<rparr>)\<rparr>))"
  by (simp add: model_defs example_defs)


end
